theory Spec2Isabelle
  imports Complex_Main "HOL-Library.Word" "HOL-Library.Multiset"
begin

unbundle bit_operations_syntax

section \<open>Errors and array helpers\<close>

text \<open>
  The collation pipeline is written with NumPy arrays. A one-dimensional array is a list,
  a two-dimensional array a list of rows. Every exception the code can raise is a value
  of \<open>error\<close>, and a function that can raise returns \<open>error + 'a\<close>.
\<close>

datatype error =
  IndexError | ValueError | TypeError | ZeroDivisionError | AssertionError | AttributeError

text \<open>Run a fallible function over the rows of a batch, stopping at the first error.\<close>

fun map_err :: "('a \<Rightarrow> error + 'b) \<Rightarrow> 'a list \<Rightarrow> error + 'b list" where
  "map_err f [] = Inr []"
| "map_err f (x # xs) =
     (case f x of
        Inl e \<Rightarrow> Inl e
      | Inr y \<Rightarrow> (case map_err f xs of Inl e \<Rightarrow> Inl e | Inr ys \<Rightarrow> Inr (y # ys)))"

text \<open>\<open>np.roll(a, 1)\<close> on one row: the last entry wraps around to the front.\<close>

definition np_roll1 :: "'a list \<Rightarrow> 'a list" where
  "np_roll1 xs = (if xs = [] then [] else last xs # butlast xs)"

text \<open>\<open>np.cumsum\<close> on one row (64-bit accumulator, no overflow at these sizes).\<close>

fun cumsum_from :: "int \<Rightarrow> int list \<Rightarrow> int list" where
  "cumsum_from a [] = []"
| "cumsum_from a (x # xs) = (a + x) # cumsum_from (a + x) xs"

definition np_cumsum :: "int list \<Rightarrow> int list" where
  "np_cumsum xs = cumsum_from 0 xs"

text \<open>
  Floating point. A double is the rational number it denotes. The product and the
  quotient of two doubles, rounded the way the machine rounds them, are not computed
  here: they are parameters of the model, so that every count below is the count the
  code itself computes in floating point. \<open>exact_ops\<close> is the arithmetic without rounding
  error; it agrees with the machine wherever the exact result is a double, as it is at
  the sample inputs of this theory (small integers, halves, eighths).
\<close>

record float_ops =
  fl_mul :: "rat \<Rightarrow> rat \<Rightarrow> rat"
  fl_div :: "rat \<Rightarrow> rat \<Rightarrow> rat"

definition exact_ops :: float_ops where
  "exact_ops = \<lparr>fl_mul = (\<lambda>x y. x * y), fl_div = (\<lambda>x y. x / y)\<rparr>"

text \<open>
  A fact of IEEE division that the span generator relies on: dividing a count by a number
  of at least 1 does not give more than the count (rounding to nearest is monotone and a
  count is a double).
\<close>

definition quotient_bounded :: "float_ops \<Rightarrow> bool" where
  "quotient_bounded ops \<longleftrightarrow>
     (\<forall>n m. 0 \<le> n \<and> 1 \<le> m \<longrightarrow> fl_div ops (of_int n) m \<le> of_int n)"

text \<open>
  NumPy broadcasting along one axis: two lengths are compatible when they are equal or
  one of them is 1, and an axis of length 1 is stretched to the other length.
\<close>

definition broadcastable :: "nat \<Rightarrow> nat \<Rightarrow> bool" where
  "broadcastable m n \<longleftrightarrow> m = n \<or> m = 1 \<or> n = 1"

definition broadcast_len :: "nat \<Rightarrow> nat \<Rightarrow> nat" where
  "broadcast_len m n = (if m = 1 then n else m)"

definition np_broadcast_to :: "nat \<Rightarrow> 'a list \<Rightarrow> 'a list" where
  "np_broadcast_to w xs = (if length xs = w then xs else concat (replicate w xs))"

section \<open>Sentinel Encoder: \<open>create_sentinel_ids\<close>\<close>

definition extra_start_token_id :: int where
  "extra_start_token_id = 107"

text \<open>
  One row of \<open>create_sentinel_ids\<close>. The assignment \<open>start_indices[:, 0] = mask_indices[:, 0]\<close>
  raises IndexError on a row without columns.
\<close>

definition sentinel_row :: "int list \<Rightarrow> error + int list" where
  "sentinel_row mask_indices =
     (let rolled = np_roll1 mask_indices;
          start0 = map2 (\<lambda>m r. m - r * m) mask_indices rolled
      in if mask_indices = [] then Inl IndexError
         else
           let start_indices = start0[0 := mask_indices ! 0];
               sentinel1 = map2 (\<lambda>s c. if s \<noteq> 0 then c else s)
                             start_indices (np_cumsum start_indices);
               sentinel2 = map (\<lambda>s. if s \<noteq> 0 then extra_start_token_id - s else 0) sentinel1
           in Inr (map2 (\<lambda>s d. s - d) sentinel2
                     (map2 (\<lambda>m s. m - s) mask_indices start_indices)))"

definition create_sentinel_ids :: "int list list \<Rightarrow> error + int list list" where
  "create_sentinel_ids mask_indices =
     (if mask_indices = [] then Inl IndexError else map_err sentinel_row mask_indices)"

text \<open>
  Vocabulary for stating what the encoder computes: position \<open>i\<close> of a 0/1 row starts a masked
  span when it is masked and its left neighbour is not; the rank of a position is the number
  of span starts at or before it (spans counted from 1, left to right).
\<close>

definition span_start :: "int list \<Rightarrow> nat \<Rightarrow> bool" where
  "span_start row i \<longleftrightarrow> row ! i \<noteq> 0 \<and> (i = 0 \<or> row ! (i - 1) = 0)"

definition span_rank :: "int list \<Rightarrow> nat \<Rightarrow> nat" where
  "span_rank row i = length (filter (span_start row) [0..<Suc i])"

definition is_mask_row :: "int list \<Rightarrow> bool" where
  "is_mask_row row \<longleftrightarrow> list_all (\<lambda>v. v = 0 \<or> v = 1) row"


section \<open>Sequence Compactor: \<open>filter_input_ids\<close>\<close>

record collator =
  PAD_ID :: int
  EOS_ID :: int
  HEAD_ID :: int
  PKT_ID :: int
  max_length :: int
  optimal_len :: int
  max_labels_length :: int
  noise_density :: rat
  mean_noise_span_length :: rat
  min_mask_span_length :: int
  arith :: float_ops

text \<open>
  \<open>np.pad(arr, (0, n), constant_values=v)\<close>: a negative pad width raises ValueError.
\<close>

definition np_pad_right :: "'a list \<Rightarrow> int \<Rightarrow> 'a \<Rightarrow> error + 'a list" where
  "np_pad_right arr n v = (if n < 0 then Inl ValueError else Inr (arr @ replicate (nat n) v))"

text \<open>
  One row of \<open>filter_input_ids\<close>. \<open>input_ids_shrink\<close>: overlay the sentinels (\<open>np.where\<close>,
  which broadcasts a row of one column), keep the entries \<open>>= 0\<close> and, for labels, drop
  the last kept entry (\<open>[:-1]\<close>). Then append EOS and pad to \<open>set_length\<close>.
\<close>

definition input_ids_shrink :: "bool \<Rightarrow> int list \<times> int list \<Rightarrow> int list" where
  "input_ids_shrink is_label row =
     (let w = broadcast_len (length (fst row)) (length (snd row));
          input_ids_full = map2 (\<lambda>x s. if s \<noteq> 0 then s else x)
                             (np_broadcast_to w (fst row)) (np_broadcast_to w (snd row));
          kept = filter (\<lambda>v. v \<ge> 0) input_ids_full
      in if is_label then butlast kept else kept)"

definition filter_row :: "collator \<Rightarrow> int \<Rightarrow> bool \<Rightarrow> int list \<times> int list \<Rightarrow> error + int list" where
  "filter_row c set_length is_label row =
     (let arr = input_ids_shrink is_label row
      in np_pad_right (arr @ [EOS_ID c]) (set_length - int (length arr) - 1)
           (if is_label then - 100 else PAD_ID c))"

text \<open>
  The batch: \<open>np.where\<close> broadcasts \<open>input_ids\<close> and \<open>sentinel_ids\<close> to one shape, along the
  rows and along the columns, and raises ValueError when an axis is not compatible.
  The rows of a NumPy array have one length, so the check of the columns is the same for
  every pair of rows.
\<close>

definition filter_input_ids ::
  "collator \<Rightarrow> int list list \<Rightarrow> int list list \<Rightarrow> int \<Rightarrow> bool \<Rightarrow> error + int list list" where
  "filter_input_ids c input_ids sentinel_ids set_length is_label =
     (if \<not> broadcastable (length input_ids) (length sentinel_ids) then Inl ValueError
      else
        let n = broadcast_len (length input_ids) (length sentinel_ids);
            rows = zip (np_broadcast_to n input_ids) (np_broadcast_to n sentinel_ids)
        in if list_ex (\<lambda>row. \<not> broadcastable (length (fst row)) (length (snd row))) rows
           then Inl ValueError
           else map_err (filter_row c set_length is_label) rows)"

section \<open>Header/payload segment indicator: \<open>flip_segment_id\<close>\<close>

text \<open>
  The inner loop over the columns of one row: at a column holding 1 the rest of the
  output row, from that column on, is flipped.
\<close>

definition flip_row :: "int list \<Rightarrow> int list" where
  "flip_row input_row =
     fold (\<lambda>col output_row.
             if input_row ! col = 1
             then take col output_row @ map (\<lambda>v. 1 - v) (drop col output_row)
             else output_row)
          [0..<length input_row] (replicate (length input_row) 1)"

definition flip_segment_id :: "int list list \<Rightarrow> int list list" where
  "flip_segment_id input_matrix = map flip_row input_matrix"

definition seg_token_mask_row :: "collator \<Rightarrow> int list \<Rightarrow> int list" where
  "seg_token_mask_row c row = map (\<lambda>t. if t = HEAD_ID c \<or> t = PKT_ID c then 1 else 0) row"

definition head_payload_row :: "collator \<Rightarrow> int list \<Rightarrow> int list" where
  "head_payload_row c row =
     (let seg_token_mask = seg_token_mask_row c row
      in map2 (\<lambda>f s. f XOR s) (flip_row seg_token_mask) seg_token_mask)"

text \<open>
  What the specification asks of \<open>head_payload_seg_ind\<close>, following its words: a row is a
  sequence of packets, each \<open>header tokens, <head>, payload tokens, <pkt>\<close>; a token is
  marked 1 when it lies in a header region, up to and including the \<open><head>\<close> marker, and
  0 when it is a payload token or a \<open><pkt>\<close> marker. The flag \<open>in_header\<close> says whether
  the walk is inside a header region; a row starts in one.
\<close>

fun header_region_spec :: "collator \<Rightarrow> bool \<Rightarrow> int list \<Rightarrow> int list" where
  "header_region_spec c in_header [] = []"
| "header_region_spec c in_header (t # ts) =
     (if t = HEAD_ID c then 1 # header_region_spec c False ts
      else if t = PKT_ID c then 0 # header_region_spec c True ts
      else (if in_header then 1 else 0) # header_region_spec c in_header ts)"

text \<open>
  A row is well formed when its structural tokens alternate, \<open><head>\<close> first: the flag says
  whether the next structural token has to be \<open><head>\<close>.
\<close>

fun alternating :: "collator \<Rightarrow> bool \<Rightarrow> int list \<Rightarrow> bool" where
  "alternating c expect_head [] = True"
| "alternating c expect_head (t # ts) =
     (if t = HEAD_ID c then expect_head \<and> alternating c False ts
      else if t = PKT_ID c then \<not> expect_head \<and> alternating c True ts
      else alternating c expect_head ts)"


section \<open>Span Noise Mask Generator: \<open>random_spans_noise_mask\<close>\<close>

text \<open>
  \<open>noise_density\<close> and \<open>mean_noise_span_length\<close> are Python floats: the fields hold the
  doubles. The product \<open>length * noise_density\<close> and the quotient
  \<open>num_noise_tokens / mean_noise_span_length\<close> are the doubles that \<open>arith\<close> gives, and
  \<open>np.round\<close> of a double is exact: the nearest integer, ties to even.
\<close>

definition np_round :: "rat \<Rightarrow> int" where
  "np_round x =
     (let f = \<lfloor>x\<rfloor>; d = x - of_int f
      in if d < 1 / 2 then f else if 1 / 2 < d then f + 1 else if even f then f else f + 1)"

text \<open>
  \<open>np.unique(a, return_counts=True)[1]\<close>: the array is sorted and the lengths of its runs of
  equal values are the counts, in the order of the sorted distinct values.
\<close>

fun run_lengths :: "int list \<Rightarrow> nat list" where
  "run_lengths [] = []"
| "run_lengths [x] = [1]"
| "run_lengths (x # y # ys) =
     (if x = y
      then (case run_lengths (y # ys) of [] \<Rightarrow> [] | n # ns \<Rightarrow> Suc n # ns)
      else 1 # run_lengths (y # ys))"

definition np_unique_counts :: "int list \<Rightarrow> nat list" where
  "np_unique_counts xs = run_lengths (sort xs)"

text \<open>
  Randomness is explicit. \<open>np.random.shuffle\<close> is a family of functions on boolean arrays,
  one for every call made so far; the number of calls is threaded through the collator
  as state. Theorems that need it assume that every member permutes its argument.
\<close>

type_synonym shuffler = "nat \<Rightarrow> bool list \<Rightarrow> bool list"

definition permuting :: "shuffler \<Rightarrow> bool" where
  "permuting rng \<longleftrightarrow> (\<forall>k xs. mset (rng k xs) = mset xs)"

text \<open>The inner function \<open>_random_segmentation(num_items, num_segments)\<close>.\<close>

definition random_segmentation :: "(bool list \<Rightarrow> bool list) \<Rightarrow> int \<Rightarrow> int \<Rightarrow> nat list" where
  "random_segmentation shuffle num_items num_segments =
     (let mask_indices = map (\<lambda>i. int i < num_segments - 1) [0..<nat (num_items - 1)];
          first_in_segment = False # shuffle mask_indices;
          segment_id = np_cumsum (map (\<lambda>b. if b then 1 else 0) first_in_segment)
      in np_unique_counts segment_id)"

text \<open>
  \<open>random_spans_noise_mask(length)\<close>, called with the number \<open>k\<close> of shuffles made so far;
  it returns the mask and the new number. The raises are those of the division (span
  length 0; the source raises ZeroDivisionError or, for a NumPy integer count,
  OverflowError on the infinite quotient: one error stands for both), of \<open>np.stack\<close>
  (the two segmentations differ in length), of \<open>np.reshape\<close> (their joint size is not
  \<open>2 * num_noise_spans\<close>) and of the indexed assignment
  \<open>span_start_indicator[span_starts] = True\<close> (a start beyond the array).
\<close>

definition random_spans_noise_mask ::
  "collator \<Rightarrow> shuffler \<Rightarrow> nat \<Rightarrow> nat \<Rightarrow> error + bool list \<times> nat" where
  "random_spans_noise_mask c rng k length' =
     (let num_noise_tokens =
            min (max (np_round (fl_mul (arith c) (of_nat length') (noise_density c))) 1)
                                 (int length' - 1)
      in if mean_noise_span_length c = 0 then Inl ZeroDivisionError
         else
           let num_noise_spans =
                 max (np_round (fl_div (arith c) (of_int num_noise_tokens)
                                  (mean_noise_span_length c))) 1;
               num_nonnoise_tokens = int length' - num_noise_tokens;
               noise_span_lengths =
                 random_segmentation (rng k) num_noise_tokens num_noise_spans;
               nonnoise_span_lengths =
                 random_segmentation (rng (k + 1)) num_nonnoise_tokens num_noise_spans
           in if length nonnoise_span_lengths \<noteq> length noise_span_lengths then Inl ValueError
              else if 2 * int (length noise_span_lengths) \<noteq> num_noise_spans * 2
                then Inl ValueError
              else
                let interleaved_span_lengths =
                      concat (map2 (\<lambda>a b. [a, b]) nonnoise_span_lengths noise_span_lengths);
                    span_starts = butlast (np_cumsum (map int interleaved_span_lengths))
                in if \<exists>s \<in> set span_starts. int length' \<le> s then Inl IndexError
                   else
                     let span_start_indicator =
                           fold (\<lambda>s ind. ind[nat s := 1]) span_starts (replicate length' 0);
                         span_num = np_cumsum span_start_indicator;
                         is_noise = map (\<lambda>v. v mod 2 = 1) span_num
                     in Inr (take length' is_noise, k + 2))"

section \<open>Segment-Aware Masker: \<open>segment_spans_random_mask\<close>\<close>

text \<open>The loop over \<open>segment_len\<close>, with \<open>final_mask\<close> as accumulator.\<close>

fun mask_segments ::
  "collator \<Rightarrow> shuffler \<Rightarrow> nat \<Rightarrow> nat list \<Rightarrow> bool list \<Rightarrow> error + bool list \<times> nat" where
  "mask_segments c rng k [] final_mask = Inr (final_mask, k)"
| "mask_segments c rng k (seg_len # rest) final_mask =
     (if min_mask_span_length c \<le> int seg_len
      then (case random_spans_noise_mask c rng k seg_len of
              Inl e \<Rightarrow> Inl e
            | Inr (noise_mask, k') \<Rightarrow>
                mask_segments c rng k' rest ((final_mask @ [False]) @ noise_mask))
      else mask_segments c rng k rest ((final_mask @ [False]) @ replicate seg_len False))"

text \<open>
  \<open>attn_mask\<close> holds 0 at the structural tokens and 1 elsewhere. Every count of
  \<open>np.unique\<close> is at least 1, so \<open>segment_len -= 1\<close> stays a natural number.
\<close>

definition segment_spans_random_mask ::
  "collator \<Rightarrow> shuffler \<Rightarrow> nat \<Rightarrow> int list \<Rightarrow> error + bool list \<times> nat" where
  "segment_spans_random_mask c rng k attn_mask =
     (let segment_id = np_cumsum (map (\<lambda>v. if v = 0 then 1 else 0) (0 # attn_mask));
          segment_len = map (\<lambda>n. n - 1) (np_unique_counts segment_id)
      in case mask_segments c rng k segment_len [] of
           Inl e \<Rightarrow> Inl e
         | Inr (final_mask, k') \<Rightarrow>
             if length final_mask \<noteq> length attn_mask + 1 then Inl AssertionError
             else Inr (tl final_mask, k'))"

text \<open>Vocabulary for the masks: the number of maximal runs of \<open>True\<close>.\<close>

fun true_runs :: "bool list \<Rightarrow> nat" where
  "true_runs [] = 0"
| "true_runs [b] = (if b then 1 else 0)"
| "true_runs (a # b # bs) = (if a \<and> \<not> b then 1 else 0) + true_runs (b # bs)"

definition count_true :: "bool list \<Rightarrow> nat" where
  "count_true bs = length (filter id bs)"


section \<open>Batch Assembler: \<open>DataCollatorForPretrain.__call__\<close>\<close>

record example =
  ex_input_ids :: "int list"
  ex_pop_order :: "int list"
  ex_nml_labels :: "int list"

record batch =
  b_input_ids :: "int list list"
  b_labels :: "int list list"
  b_pop_order :: "int list list"
  b_nml_labels :: "int list list"
  b_pop_mask :: "bool list list"
  b_nml_mask :: "bool list list"
  b_pkt_seg_ind :: "int list list"
  b_head_payload_seg_ind :: "int list list"

text \<open>\<open>np.array\<close> of a list of rows: rows of different lengths do not stack.\<close>

definition rectangular :: "'a list list \<Rightarrow> bool" where
  "rectangular rows \<longleftrightarrow> (\<forall>r \<in> set rows. length r = length (hd rows))"

text \<open>
  The list comprehension that builds \<open>spans_noise_masks\<close>: for each row, \<open>real_len\<close> counts
  the entries different from \<open>-100\<close>, the masker runs on the first \<open>real_len\<close> attention
  flags, and the mask is padded with \<open>False\<close> to \<open>optimal_len\<close>.
\<close>

fun noise_mask_rows ::
  "collator \<Rightarrow> shuffler \<Rightarrow> nat \<Rightarrow> int list list \<Rightarrow> error + bool list list" where
  "noise_mask_rows c rng k [] = Inr []"
| "noise_mask_rows c rng k (row # rows) =
     (let real_len = length (filter (\<lambda>t. t \<noteq> - 100) row);
          attn_mask = map (\<lambda>t. if t = PKT_ID c \<or> t = HEAD_ID c then 0 else 1) row
      in case segment_spans_random_mask c rng k (take real_len attn_mask) of
           Inl e \<Rightarrow> Inl e
         | Inr (m, k') \<Rightarrow>
             (case np_pad_right m (optimal_len c - int real_len) False of
                Inl e \<Rightarrow> Inl e
              | Inr padded \<Rightarrow>
                  (case noise_mask_rows c rng k' rows of
                     Inl e \<Rightarrow> Inl e
                   | Inr ms \<Rightarrow> Inr (padded # ms))))"

text \<open>
  A task mask: \<open>True\<close> at the positions of \<open>token\<close> in the rows whose label row has an entry
  different from \<open>-100\<close>.
\<close>

definition task_mask :: "int \<Rightarrow> int list list \<Rightarrow> int list list \<Rightarrow> bool list list" where
  "task_mask token ids label_rows =
     map2 (\<lambda>row lab. map (\<lambda>t. t = token \<and> length (filter (\<lambda>v. v \<noteq> - 100) lab) \<noteq> 0) row)
       ids label_rows"

definition total_true :: "bool list list \<Rightarrow> nat" where
  "total_true m = sum_list (map count_true m)"

text \<open>
  The right-hand side of the assertion: the entries of \<open>nml_labels\<close> different from \<open>-100\<close>
  are selected, those \<open>>= 0\<close> among them are counted, and \<open>int(count / 4)\<close> truncates.
\<close>

definition nml_label_quota :: "int list list \<Rightarrow> nat" where
  "nml_label_quota label_rows =
     length (filter (\<lambda>v. v \<ge> 0) (filter (\<lambda>v. v \<noteq> - 100) (concat label_rows))) div 4"

text \<open>The number of \<open>nml_labels\<close> entries different from \<open>-100\<close>.\<close>

definition valid_label_count :: "int list list \<Rightarrow> nat" where
  "valid_label_count label_rows = length (filter (\<lambda>v. v \<noteq> - 100) (concat label_rows))"

definition pkt_seg_row :: "collator \<Rightarrow> int list \<Rightarrow> int list" where
  "pkt_seg_row c row =
     (let pkt_token_mask = map (\<lambda>t. if t = PKT_ID c then 1 else 0) row
      in map2 (\<lambda>s m. s - m) (np_cumsum pkt_token_mask) pkt_token_mask)"

text \<open>
  The collator call. The message of the first shape check reads the attribute
  \<open>self.input_length\<close>, which the class never sets, so that check would raise
  AttributeError.
\<close>

definition collator_call :: "collator \<Rightarrow> shuffler \<Rightarrow> example list \<Rightarrow> error + batch" where
  "collator_call c rng examples =
     (if examples = [] then Inl IndexError
      else
        let ids = map ex_input_ids examples;
            pop = map ex_pop_order examples;
            nml = map ex_nml_labels examples
        in if \<not> rectangular ids \<or> \<not> rectangular pop \<or> \<not> rectangular nml then Inl ValueError
           else
             case noise_mask_rows c rng 0 ids of
               Inl e \<Rightarrow> Inl e
             | Inr spans_noise_masks \<Rightarrow>
             case create_sentinel_ids
                    (map (map (\<lambda>b. if b then 1 else 0)) spans_noise_masks) of
               Inl e \<Rightarrow> Inl e
             | Inr input_sentinel \<Rightarrow>
             case create_sentinel_ids
                    (map (map (\<lambda>b. if \<not> b then 1 else 0)) spans_noise_masks) of
               Inl e \<Rightarrow> Inl e
             | Inr label_sentinel \<Rightarrow>
             case filter_input_ids c ids input_sentinel (max_length c) False of
               Inl e \<Rightarrow> Inl e
             | Inr new_ids \<Rightarrow>
             case filter_input_ids c ids label_sentinel (max_labels_length c) True of
               Inl e \<Rightarrow> Inl e
             | Inr new_labels \<Rightarrow>
               let pop_mask = task_mask (PKT_ID c) new_ids pop;
                   nml_mask = task_mask (HEAD_ID c) new_ids nml
               in if total_true nml_mask \<noteq> nml_label_quota nml then Inl AssertionError
                  else if \<exists>row \<in> set new_ids. int (length row) \<noteq> max_length c
                    then Inl AttributeError
                  else if \<exists>row \<in> set new_labels. int (length row) \<noteq> max_labels_length c
                    then Inl ValueError
                  else Inr \<lparr>b_input_ids = new_ids, b_labels = new_labels,
                            b_pop_order = pop, b_nml_labels = nml,
                            b_pop_mask = pop_mask, b_nml_mask = nml_mask,
                            b_pkt_seg_ind = map (pkt_seg_row c) new_ids,
                            b_head_payload_seg_ind = map (head_payload_row c) new_ids\<rparr>)"


section \<open>Flow Record Preprocessor: \<open>tokenize_pt_func\<close>\<close>

text \<open>
  The tokenizer is external: the flows arrive tokenized, the label strings arrive parsed
  (one list of labels per packet), and \<open>tokenizer.decode\<close> of one token is a parameter.
  \<open>ceil_keeps_int\<close> records the one point where the NumPy release matters: \<open>np.ceil\<close> of an
  integer is a \<open>float64\<close> before NumPy 2.1 and stays an integer from 2.1 on. \<open>pt_arith\<close> is
  the floating-point arithmetic of the truncation shares.
\<close>

record pt_config =
  pt_EOS_ID :: int
  pt_HEAD_ID :: int
  pt_PKT_ID :: int
  optim_len :: int
  pkt_per_flow :: nat
  pop_switch_gap :: nat
  nml_label_gap :: nat
  ceil_keeps_int :: bool
  pt_arith :: float_ops

text \<open>Storing into an \<open>int8\<close> array wraps around.\<close>

definition to_int8 :: "int \<Rightarrow> int" where
  "to_int8 v = (v + 128) mod 256 - 128"

text \<open>
  \<open>row[:len(values)] = values\<close> on an \<open>int8\<close> row: storing more values than the row has
  slots raises ValueError.
\<close>

definition assign_prefix :: "int list \<Rightarrow> int list \<Rightarrow> error + int list" where
  "assign_prefix row vals =
     (if length row < length vals then Inl ValueError
      else Inr (map to_int8 vals @ drop (length vals) row))"

text \<open>A number as Python sees it: an integer, or a NumPy float.\<close>

datatype pynum = PyInt int | NpFloat rat

definition py_int :: "rat \<Rightarrow> int" where
  "py_int x = (if 0 \<le> x then \<lfloor>x\<rfloor> else \<lceil>x\<rceil>)"

definition np_ceil :: "pt_config \<Rightarrow> int \<Rightarrow> pynum" where
  "np_ceil cfg n = (if ceil_keeps_int cfg then PyInt n else NpFloat (of_int n))"

text \<open>
  The slice \<open>xs[:-n]\<close> of a Python list. A float is not a slice index (TypeError);
  \<open>xs[:-0]\<close> is \<open>xs[:0]\<close>, the empty list.
\<close>

definition py_slice_to :: "'a list \<Rightarrow> int \<Rightarrow> 'a list" where
  "py_slice_to xs i = (if 0 \<le> i then take (nat i) xs else take (length xs - nat (- i)) xs)"

definition drop_last :: "'a list \<Rightarrow> pynum \<Rightarrow> error + 'a list" where
  "drop_last xs n = (case n of PyInt i \<Rightarrow> Inr (py_slice_to xs (- i)) | NpFloat x \<Rightarrow> Inl TypeError)"

text \<open>\<open>_trunc_sanity_check\<close>; \<open>truncted_content[-2]\<close> raises IndexError on a single token.\<close>

definition hash_char :: char where
  "hash_char = CHR ''#''"

definition trunc_sanity_check :: "(int \<Rightarrow> string) \<Rightarrow> int list \<Rightarrow> error + int list" where
  "trunc_sanity_check decode truncted_content =
     (if 0 < length truncted_content then
        let str = decode (last truncted_content)
        in if hash_char \<notin> set str \<and> length str < 4 then Inr (butlast truncted_content)
           else if hash_char \<in> set str then
             (if length truncted_content < 2 then Inl IndexError
              else
                let str2 = decode (truncted_content ! (length truncted_content - 2))
                             @ filter (\<lambda>ch. ch \<noteq> hash_char) str
                in if hash_char \<notin> set str2 \<and> length str2 < 4
                   then Inr (py_slice_to truncted_content (- 2))
                   else Inr truncted_content)
           else Inr truncted_content
      else Inr truncted_content)"

text \<open>
  \<open>groupby(input_text, key=lambda k: k != PKT_ID)\<close>, keeping the groups whose key is true:
  the maximal runs of tokens other than \<open><pkt>\<close>. \<open>cur\<close> is the run being read.
\<close>

fun split_packets :: "int \<Rightarrow> int list \<Rightarrow> int list \<Rightarrow> int list list" where
  "split_packets pkt cur [] = (if cur = [] then [] else [cur])"
| "split_packets pkt cur (t # ts) =
     (if t = pkt then (if cur = [] then [] else [cur]) @ split_packets pkt [] ts
      else split_packets pkt (cur @ [t]) ts)"

text \<open>\<open>pkt.index(HEAD_ID)\<close> raises ValueError when the packet has no \<open><head>\<close>.\<close>

definition split_head :: "pt_config \<Rightarrow> int list \<Rightarrow> error + int list \<times> int list" where
  "split_head cfg pkt =
     (if pt_HEAD_ID cfg \<in> set pkt
      then Inr (takeWhile (\<lambda>t. t \<noteq> pt_HEAD_ID cfg) pkt,
                tl (dropWhile (\<lambda>t. t \<noteq> pt_HEAD_ID cfg) pkt))
      else Inl ValueError)"

text \<open>
  One pass of a truncation loop over a region \<open>xs\<close> of a packet: the share of the deletion
  budget is \<open>delete_len * ratio\<close>, cut by \<open>int\<close> and only then handed to \<open>np.ceil\<close>. The
  quotient and the product are the doubles that \<open>pt_arith\<close> gives.
\<close>

definition cut_region ::
  "pt_config \<Rightarrow> (int \<Rightarrow> string) \<Rightarrow> int \<Rightarrow> nat \<Rightarrow> int list \<Rightarrow> error + int list" where
  "cut_region cfg decode delete_len total_len xs =
     (let ratio = fl_div (pt_arith cfg) (of_nat (length xs)) (of_nat total_len)
      in case drop_last xs
                (np_ceil cfg (py_int (fl_mul (pt_arith cfg) (of_int delete_len) ratio))) of
           Inl e \<Rightarrow> Inl e
         | Inr ys \<Rightarrow> trunc_sanity_check decode ys)"

text \<open>The branch \<open>current_len > optim_len\<close>.\<close>

definition truncate_packets ::
  "pt_config \<Rightarrow> (int \<Rightarrow> string) \<Rightarrow> nat \<Rightarrow> int list list \<Rightarrow> error + int list list" where
  "truncate_packets cfg decode current_len packets =
     (let packet_num = length packets;
          optim_len_wo_special_tokens = optim_len cfg - int packet_num - 1;
          delete_len = int current_len - optim_len_wo_special_tokens
      in case map_err (split_head cfg) packets of
           Inl e \<Rightarrow> Inl e
         | Inr header_payload \<Rightarrow>
             let total_payload_len = sum_list (map (\<lambda>hp. length (snd hp)) header_payload);
                 total_header_len = sum_list (map (\<lambda>hp. length (fst hp)) header_payload)
             in if delete_len \<le> int total_payload_len then
                  (if total_payload_len = 0 \<and> header_payload \<noteq> [] then Inl ZeroDivisionError
                   else
                     case map_err (\<lambda>hp. case cut_region cfg decode delete_len
                                                 total_payload_len (snd hp) of
                                            Inl e \<Rightarrow> Inl e
                                          | Inr raw \<Rightarrow> Inr (fst hp, raw)) header_payload of
                       Inl e \<Rightarrow> Inl e
                     | Inr hps \<Rightarrow> Inr (map (\<lambda>hp. fst hp @ [pt_HEAD_ID cfg] @ snd hp) hps))
                else
                  (if total_header_len = 0 \<and> header_payload \<noteq> [] then Inl ZeroDivisionError
                   else
                     case map_err (\<lambda>hp. case cut_region cfg decode
                                                 (delete_len - int total_payload_len)
                                                 total_header_len (fst hp) of
                                            Inl e \<Rightarrow> Inl e
                                          | Inr header \<Rightarrow> Inr (header, [])) header_payload of
                       Inl e \<Rightarrow> Inl e
                     | Inr hps \<Rightarrow> Inr (map (\<lambda>hp. fst hp @ [pt_HEAD_ID cfg] @ snd hp) hps)))"

text \<open>
  The packet order of a flow selected for POP. \<open>np.random.randint(0, n)\<close> is driven by an
  external random number \<open>r\<close> and returns \<open>r mod n\<close>.
\<close>

definition pop_permute :: "pt_config \<Rightarrow> nat \<Rightarrow> nat \<Rightarrow> nat list" where
  "pop_permute cfg r packet_num =
     (let packet_order = [0..<packet_num]
      in if packet_num \<le> pop_switch_gap cfg then packet_order
         else
           let first_cand = r mod (packet_num - pop_switch_gap cfg);
               second_cand = first_cand + pop_switch_gap cfg
           in (packet_order[first_cand := packet_order ! second_cand])
                [second_cand := packet_order ! first_cand])"

text \<open>
  The packets of a flow: the groups of \<open>groupby\<close>, without a last group that holds only
  EOS. \<open>packets[-1]\<close> raises IndexError when there is no group.
\<close>

definition flow_packets :: "pt_config \<Rightarrow> int list \<Rightarrow> error + int list list" where
  "flow_packets cfg input_text =
     (let packets = split_packets (pt_PKT_ID cfg) [] input_text
      in if packets = [] then Inl IndexError
         else Inr (if last packets = [pt_EOS_ID cfg] then butlast packets else packets))"

text \<open>
  The body of the loop over the flows: \<open>selected\<close> says whether the flow's index is in
  \<open>pop_index\<close>. The result is the padded token row and the flow's \<open>pop_order\<close> row.
\<close>

definition tokenize_flow ::
  "pt_config \<Rightarrow> (int \<Rightarrow> string) \<Rightarrow> bool \<Rightarrow> nat \<Rightarrow> int list \<Rightarrow> error + int list \<times> int list" where
  "tokenize_flow cfg decode selected r input_text =
     (let current_len = length input_text
      in case flow_packets cfg input_text of
           Inl e \<Rightarrow> Inl e
         | Inr packets1 \<Rightarrow>
           let packet_num = length packets1;
               pop_row0 = replicate (pkt_per_flow cfg) (- 100)
           in case (if optim_len cfg < int current_len
                    then truncate_packets cfg decode current_len packets1
                    else Inr packets1) of
                Inl e \<Rightarrow> Inl e
              | Inr packets2 \<Rightarrow>
                  let packet_order_permute = pop_permute cfg r packet_num
                  in case (if selected
                           then assign_prefix pop_row0 (map int packet_order_permute)
                           else Inr pop_row0) of
                       Inl e \<Rightarrow> Inl e
                     | Inr pop_row \<Rightarrow>
                         let packets3 = (if selected
                                         then map (\<lambda>order. packets2 ! order) packet_order_permute
                                         else packets2);
                             tokens = concat (map (\<lambda>pkt. pkt @ [pt_PKT_ID cfg]) packets3)
                         in if optim_len cfg - 1 < int (length tokens) then Inl AssertionError
                            else Inr (tokens @ replicate (nat (optim_len cfg - int (length tokens)))
                                                 (- 100),
                                      pop_row))"

text \<open>
  One row of \<open>nml_labels\<close>: the labels of the packets, concatenated in the order of the
  label string, stored at the front of a row of \<open>-100\<close>.
\<close>

definition nml_row :: "pt_config \<Rightarrow> int list list \<Rightarrow> error + int list" where
  "nml_row cfg packet_labels =
     assign_prefix (replicate (pkt_per_flow cfg * nml_label_gap cfg) (- 100))
       (concat packet_labels)"

text \<open>
  The batched function: \<open>pop_index\<close> is the outcome of \<open>np.random.choice\<close> and \<open>rand i\<close> the
  random number for flow \<open>i\<close>. The label rows are built before the loop over the flows and
  are not touched afterwards; \<open>nml_labels\<close> has one row per flow, so a label string beyond
  the last flow raises IndexError, and a flow without label string keeps a row of \<open>-100\<close>.
\<close>

definition tokenize_pt_func ::
  "pt_config \<Rightarrow> (int \<Rightarrow> string) \<Rightarrow> nat list \<Rightarrow> (nat \<Rightarrow> nat) \<Rightarrow> int list list \<Rightarrow>
     int list list list \<Rightarrow> error + int list list \<times> int list list \<times> int list list" where
  "tokenize_pt_func cfg decode pop_index rand tknzed_input network_model_layer =
     (case map_err (nml_row cfg) (take (length tknzed_input) network_model_layer) of
        Inl e \<Rightarrow> Inl e
      | Inr label_rows \<Rightarrow>
          if length tknzed_input < length network_model_layer then Inl IndexError
          else
            let nml_labels =
                  label_rows @
                  replicate (length tknzed_input - length network_model_layer)
                    (replicate (pkt_per_flow cfg * nml_label_gap cfg) (- 100))
            in case map_err (\<lambda>id_input. tokenize_flow cfg decode (id_input \<in> set pop_index)
                                          (rand id_input) (tknzed_input ! id_input))
                      [0..<length tknzed_input] of
                 Inl e \<Rightarrow> Inl e
               | Inr rows \<Rightarrow> Inr (map fst rows, map snd rows, nml_labels))"

section \<open>Sample inputs\<close>

text \<open>
  Concrete configurations and inputs at which the theorems below are instantiated. The
  special token ids are those noted in the source: pad 0, EOS 1, \<open><head>\<close> 3, \<open><pkt>\<close> 4.
  The densities (1/8, 1/2) and span lengths (2, 1) are doubles, and at the lengths used
  every product and quotient is a double too, so \<open>exact_ops\<close> is the machine's arithmetic
  there.
\<close>

definition sample_collator :: collator where
  "sample_collator =
     \<lparr>PAD_ID = 0, EOS_ID = 1, HEAD_ID = 3, PKT_ID = 4, max_length = 8, optimal_len = 8,
      max_labels_length = 8, noise_density = 1 / 8, mean_noise_span_length = 2,
      min_mask_span_length = 5, arith = exact_ops\<rparr>"

definition dense_collator :: collator where
  "dense_collator =
     \<lparr>PAD_ID = 0, EOS_ID = 1, HEAD_ID = 3, PKT_ID = 4, max_length = 8, optimal_len = 8,
      max_labels_length = 8, noise_density = 1 / 2, mean_noise_span_length = 1,
      min_mask_span_length = 5, arith = exact_ops\<rparr>"

text \<open>
  One packet \<open>10 <head> 11 <pkt>\<close> padded to 8 tokens, with four labels and with five.
\<close>

definition four_label_example :: example where
  "four_label_example =
     \<lparr>ex_input_ids = [10, 3, 11, 4, - 100, - 100, - 100, - 100],
      ex_pop_order = [- 100, - 100],
      ex_nml_labels = [0, 2, 3, 2, - 100, - 100, - 100, - 100]\<rparr>"

definition five_label_example :: example where
  "five_label_example =
     \<lparr>ex_input_ids = [10, 3, 11, 4, - 100, - 100, - 100, - 100],
      ex_pop_order = [- 100, - 100],
      ex_nml_labels = [0, 2, 3, 2, 1, - 100, - 100, - 100]\<rparr>"

definition reversing :: shuffler where
  "reversing k xs = rev xs"

definition sample_config :: pt_config where
  "sample_config =
     \<lparr>pt_EOS_ID = 1, pt_HEAD_ID = 3, pt_PKT_ID = 4, optim_len = 16, pkt_per_flow = 3,
      pop_switch_gap = 1, nml_label_gap = 4, ceil_keeps_int = False,
      pt_arith = exact_ops\<rparr>"

definition sample_decode :: "int \<Rightarrow> string" where
  "sample_decode t = ''abcd''"

definition first_draw :: "nat \<Rightarrow> nat" where
  "first_draw id_input = 0"

text \<open>Two packets, each \<open>header, <head>, payload, <pkt>\<close>, and the final EOS.\<close>

definition two_packet_flow :: "int list" where
  "two_packet_flow = [10, 3, 11, 4, 20, 3, 21, 4, 1]"

definition long_flow :: "int list" where
  "long_flow = [10, 3, 11, 12, 13, 4, 20, 3, 21, 22, 23, 4, 1]"

definition two_packet_labels :: "int list list" where
  "two_packet_labels = [[0, 2, 3, 2], [1, 5, 6, 7]]"

section \<open>Basic facts about the array helpers\<close>

lemma map_err_Inr_iff:
  "map_err f xs = Inr ys \<longleftrightarrow>
     length ys = length xs \<and> (\<forall>i<length xs. f (xs ! i) = Inr (ys ! i))"
proof (induction xs arbitrary: ys)
  case Nil
  then show ?case by auto
next
  case (Cons x xs)
  show ?case
  proof (cases ys)
    case Nil
    then show ?thesis by (auto split: sum.splits)
  next
    case ys: (Cons z zs)
    have "(\<forall>i<Suc (length xs). f ((x # xs) ! i) = Inr ((z # zs) ! i))
            \<longleftrightarrow> f x = Inr z \<and> (\<forall>i<length xs. f (xs ! i) = Inr (zs ! i))"
      by (auto simp: nth_Cons split: nat.splits)
    then show ?thesis using Cons.IH[of zs] ys
      by (auto split: sum.splits)
  qed
qed

lemma map_err_total:
  assumes "\<And>x. x \<in> set xs \<Longrightarrow> \<exists>y. f x = Inr y"
  shows "\<exists>ys. map_err f xs = Inr ys"
  using assms
proof (induction xs)
  case Nil
  then show ?case by simp
next
  case (Cons x xs)
  then obtain y ys where "f x = Inr y" "map_err f xs = Inr ys"
    by (metis list.set_intros(1) list.set_intros(2))
  then show ?case by simp
qed


lemma cumsum_from_length [simp]: "length (cumsum_from a xs) = length xs"
  by (induction xs arbitrary: a) auto

lemma np_cumsum_length [simp]: "length (np_cumsum xs) = length xs"
  by (simp add: np_cumsum_def)

lemma cumsum_from_nth:
  "i < length xs \<Longrightarrow> cumsum_from a xs ! i = a + sum_list (take (Suc i) xs)"
proof (induction xs arbitrary: a i)
  case Nil
  then show ?case by simp
next
  case (Cons x xs)
  then show ?case by (cases i) auto
qed

lemma np_roll1_length [simp]: "length (np_roll1 xs) = length xs"
  by (auto simp: np_roll1_def)

lemma np_roll1_nth:
  "i < length xs \<Longrightarrow> np_roll1 xs ! i = (if i = 0 then last xs else xs ! (i - 1))"
  by (cases i) (auto simp: np_roll1_def nth_butlast)

section \<open>The Sentinel Encoder\<close>

lemma start_indices_nth:
  assumes "is_mask_row row" "i < length row"
  shows "(map2 (\<lambda>m r. m - r * m) row (np_roll1 row))[0 := row ! 0] ! i
           = (if span_start row i then 1 else 0)"
proof -
  have b: "\<And>j. j < length row \<Longrightarrow> row ! j = 0 \<or> row ! j = 1"
    using assms(1) by (simp add: is_mask_row_def list_all_length)
  show ?thesis
  proof (cases i)
    case 0
    then show ?thesis using assms(2) b[of 0]
      by (auto simp: span_start_def)
  next
    case (Suc k)
    then show ?thesis using assms(2) b[of i] b[of k]
      by (auto simp: span_start_def np_roll1_nth)
  qed
qed

lemma sum_take_indicator:
  assumes "\<And>j. j < length xs \<Longrightarrow> xs ! j = (if P j then 1 else (0::int))" "n \<le> length xs"
  shows "sum_list (take n xs) = int (length (filter P [0..<n]))"
  using assms(2)
proof (induction n)
  case 0
  then show ?case by simp
next
  case (Suc n)
  then have "take (Suc n) xs = take n xs @ [xs ! n]"
    by (simp add: take_Suc_conv_app_nth)
  then show ?case using Suc assms(1)[of n] by simp
qed

lemma sentinel_row_nth:
  assumes "is_mask_row row" "i < length row"
  shows "\<exists>out. sentinel_row row = Inr out \<and> length out = length row \<and>
           out ! i = (if row ! i = 0 then 0
                      else if span_start row i then extra_start_token_id - int (span_rank row i)
                      else - 1)"
proof -
  define st where "st = (map2 (\<lambda>m r. m - r * m) row (np_roll1 row))[0 := row ! 0]"
  have len: "length st = length row" by (simp add: st_def)
  have ne: "row \<noteq> []" using assms(2) by auto
  have b: "row ! i = 0 \<or> row ! i = 1"
    using assms by (simp add: is_mask_row_def list_all_length)
  have stn: "\<And>j. j < length st \<Longrightarrow> st ! j = (if span_start row j then 1 else 0)"
    unfolding st_def using start_indices_nth[OF assms(1)] by simp
  have cs: "np_cumsum st ! i = int (span_rank row i)"
    unfolding np_cumsum_def span_rank_def
    using cumsum_from_nth[of i st 0] assms(2) len
      sum_take_indicator[of st "span_start row" "Suc i"] stn
    by simp
  have rk: "span_start row i \<Longrightarrow> span_rank row i \<noteq> 0"
    by (simp add: span_rank_def)
  have s0: "span_start row i \<Longrightarrow> row ! i \<noteq> 0"
    by (simp add: span_start_def)
  show ?thesis
    using ne assms(2) b stn[of i] len cs rk s0
    by (auto simp: sentinel_row_def Let_def st_def[symmetric])
qed

text \<open>
  Claim C8. On a batch of 0/1 mask rows (at least one row, at least one column)
  \<open>create_sentinel_ids\<close> returns an array of the same shape; at every position it holds 0
  where the mask is 0, \<open>107 - k\<close> at the first position of the \<open>k\<close>-th masked span of the row
  (spans counted from 1, left to right, so 106, 105, ... in decreasing order), and \<open>-1\<close>
  at the other masked positions.
\<close>

theorem create_sentinel_ids_spans:
  assumes "mask_indices \<noteq> []"
    and "list_all (\<lambda>row. row \<noteq> [] \<and> is_mask_row row) mask_indices"
    and "r < length mask_indices" and "i < length (mask_indices ! r)"
  shows "\<exists>out. create_sentinel_ids mask_indices = Inr out \<and>
           length out = length mask_indices \<and>
           length (out ! r) = length (mask_indices ! r) \<and>
           out ! r ! i =
             (if mask_indices ! r ! i = 0 then 0
              else if span_start (mask_indices ! r) i
                then 107 - int (span_rank (mask_indices ! r) i)
              else - 1)"
proof -
  have "\<And>row. row \<in> set mask_indices \<Longrightarrow> \<exists>y. sentinel_row row = Inr y"
  proof -
    fix row assume "row \<in> set mask_indices"
    then have "is_mask_row row" "0 < length row" using assms(2) by (auto simp: list_all_iff)
    from sentinel_row_nth[OF this] show "\<exists>y. sentinel_row row = Inr y" by blast
  qed
  then obtain out where out: "map_err sentinel_row mask_indices = Inr out"
    using map_err_total by blast
  then have len: "length out = length mask_indices"
    and row: "sentinel_row (mask_indices ! r) = Inr (out ! r)"
    using assms(3) by (simp_all add: map_err_Inr_iff)
  have "is_mask_row (mask_indices ! r)" using assms(2,3) by (simp add: list_all_length)
  from sentinel_row_nth[OF this assms(4)] row
  have "length (out ! r) = length (mask_indices ! r)"
    and "out ! r ! i =
             (if mask_indices ! r ! i = 0 then 0
              else if span_start (mask_indices ! r) i
                then 107 - int (span_rank (mask_indices ! r) i)
              else - 1)"
    by (auto simp: extra_start_token_id_def)
  then show ?thesis using out len assms(1) by (simp add: create_sentinel_ids_def)
qed

theorem create_sentinel_ids_spans_witness:
  "[[0, 1, 1, 0, 1 :: int]] \<noteq> [] \<and>
   list_all (\<lambda>row. row \<noteq> [] \<and> is_mask_row row) [[0, 1, 1, 0, 1 :: int]] \<and>
   (\<exists>out. create_sentinel_ids [[0, 1, 1, 0, 1]] = Inr out \<and> length out = 1 \<and>
      length (out ! 0) = 5 \<and> out ! 0 ! 4 = 105)"
proof -
  have "span_start [0, 1, 1, 0, 1] 4" and "span_rank [0, 1, 1, 0, 1] 4 = 2"
    by code_simp+
  then show ?thesis
    using create_sentinel_ids_spans [of "[[0, 1, 1, 0, 1]]" 0 4]
    by (simp add: is_mask_row_def eval_nat_numeral)
qed

section \<open>The Flow Record Preprocessor at concrete flows\<close>

text \<open>
  The swap itself is recorded as the specification says: with more packets than
  \<open>pop_switch_gap\<close>, the packets at \<open>s\<close> and \<open>s + pop_switch_gap\<close> trade places in the order.
\<close>

lemma pop_permute_swap:
  assumes "pop_switch_gap cfg < packet_num"
    and "s = r mod (packet_num - pop_switch_gap cfg)"
  shows "pop_permute cfg r packet_num ! s = s + pop_switch_gap cfg \<and>
         pop_permute cfg r packet_num ! (s + pop_switch_gap cfg) = s"
proof -
  have "s < packet_num - pop_switch_gap cfg"
    using assms by simp
  then have "s + pop_switch_gap cfg < packet_num" by simp
  then show ?thesis
    using assms by (auto simp: pop_permute_def Let_def nth_list_update)
qed

text \<open>
  Claim C1. A flow of two packets is selected for POP with \<open>pop_switch_gap = 1\<close>: the
  packets are swapped and \<open>pop_order\<close> records the swap (\<open>pop_order[0] = 1\<close>,
  \<open>pop_order[1] = 0\<close>), while the row of \<open>nml_labels\<close> still holds the label group of the
  first packet of the input in slot 0 and that of the second in slot 1. The labels are
  not permuted with the packets.
\<close>

theorem pop_swap_leaves_nml_labels:
  "tokenize_pt_func sample_config sample_decode [0] first_draw
       [two_packet_flow] [two_packet_labels]
     = Inr ([[20, 3, 21, 4, 10, 3, 11, 4,
               - 100, - 100, - 100, - 100, - 100, - 100, - 100, - 100]],
            [[1, 0, - 100]],
            [[0, 2, 3, 2, 1, 5, 6, 7, - 100, - 100, - 100, - 100]])"
  by code_simp

text \<open>
  Claim C7. A flow of 13 tokens is longer than \<open>optim_len = 12\<close>. The share of the deletion
  budget is passed through \<open>int\<close> before \<open>np.ceil\<close>; with a NumPy whose \<open>np.ceil\<close> returns a
  float the slice of the payload raises TypeError and no row is produced.
\<close>

theorem truncation_raises_type_error:
  "tokenize_pt_func (sample_config\<lparr>optim_len := 12\<rparr>) sample_decode [] first_draw
       [long_flow] [two_packet_labels]
     = Inl TypeError"
  by code_simp

text \<open>
  With a NumPy whose \<open>np.ceil\<close> keeps integers the same flow is truncated, and the share is
  rounded down: for \<open>optim_len = 11\<close> the budget is 5, each payload of 3 tokens has the
  share 2.5 and loses 2 tokens, not 3.
\<close>

lemma truncation_rounds_down:
  "tokenize_pt_func (sample_config\<lparr>optim_len := 11, ceil_keeps_int := True\<rparr>) sample_decode []
       first_draw [long_flow] [two_packet_labels]
     = Inr ([[10, 3, 11, 4, 20, 3, 21, 4, - 100, - 100, - 100]],
            [[- 100, - 100, - 100]],
            [[0, 2, 3, 2, 1, 5, 6, 7, - 100, - 100, - 100, - 100]])"
  by code_simp

section \<open>The Sequence Compactor\<close>





section \<open>The header/payload indicator\<close>

lemma flip_fold_nth:
  assumes "k \<le> length inp" "j < length inp"
  shows "length (fold (\<lambda>col output_row.
             if inp ! col = 1
             then take col output_row @ map (\<lambda>v. 1 - v) (drop col output_row)
             else output_row) [0..<k] (replicate (length inp) (1::int))) = length inp \<and>
         fold (\<lambda>col output_row.
             if inp ! col = 1
             then take col output_row @ map (\<lambda>v. 1 - v) (drop col output_row)
             else output_row) [0..<k] (replicate (length inp) (1::int)) ! j
           = (if even (length (filter (\<lambda>v. v = 1) (take (min k (Suc j)) inp))) then 1 else 0)"
  using assms(1)
proof (induction k)
  case 0
  then show ?case using assms(2) by simp
next
  case (Suc k)
  let ?f = "\<lambda>col output_row.
             if inp ! col = 1
             then take col output_row @ map (\<lambda>v. 1 - v) (drop col output_row)
             else output_row"
  let ?prev = "fold ?f [0..<k] (replicate (length inp) (1::int))"
  have k: "k < length inp" using Suc.prems by simp
  have IH: "length ?prev = length inp"
    "?prev ! j = (if even (length (filter (\<lambda>v. v = 1) (take (min k (Suc j)) inp))) then 1 else 0)"
    using Suc.IH k by simp_all
  have step: "fold ?f [0..<Suc k] (replicate (length inp) 1) = ?f k ?prev"
    by simp
  have tk: "take (Suc k) inp = take k inp @ [inp ! k]"
    using k by (simp add: take_Suc_conv_app_nth)
  show ?case
  proof (cases "inp ! k = 1")
    case False
    have "min (Suc k) (Suc j) = min k (Suc j) \<or> (k \<le> j \<and> min (Suc k) (Suc j) = Suc k \<and> min k (Suc j) = k)"
      by auto
    then show ?thesis using False IH step tk by auto
  next
    case True
    show ?thesis
    proof (cases "j < k")
      case jk: True
      then have "min (Suc k) (Suc j) = min k (Suc j)" by simp
      then show ?thesis using True IH step jk k assms(2) by (simp add: nth_append)
    next
      case jk: False
      then have m: "min (Suc k) (Suc j) = Suc k" "min k (Suc j) = k" by simp_all
      show ?thesis using True IH step jk assms(2) m tk k
        by (simp add: nth_append)
    qed
  qed
qed

lemma flip_row_nth:
  assumes "j < length inp"
  shows "flip_row inp ! j
           = (if even (length (filter (\<lambda>v. v = 1) (take (Suc j) inp))) then 1 else 0)"
  using flip_fold_nth[of "length inp" inp j] assms
  by (simp add: flip_row_def min_def)

lemma flip_row_length [simp]: "length (flip_row inp) = length inp"
proof (cases inp)
  case Nil
  then show ?thesis by (simp add: flip_row_def)
next
  case (Cons a as)
  then show ?thesis using flip_fold_nth[of "length inp" inp 0]
    by (simp add: flip_row_def)
qed

lemma seg_token_ones:
  "length (filter (\<lambda>v. v = 1) (take n (seg_token_mask_row c row)))
     = length (filter (\<lambda>t. t = HEAD_ID c \<or> t = PKT_ID c) (take n row))"
proof -
  have "filter (\<lambda>v. v = (1::int)) (map (\<lambda>t. if t = HEAD_ID c \<or> t = PKT_ID c then 1 else 0) xs)
          = map (\<lambda>t. 1) (filter (\<lambda>t. t = HEAD_ID c \<or> t = PKT_ID c) xs)" for xs
    by (induction xs) auto
  then show ?thesis
    by (simp add: seg_token_mask_row_def take_map)
qed

text \<open>
  What the code computes on any row: a position is marked 1 exactly when the number of
  structural tokens strictly before it is even.
\<close>

lemma head_payload_row_nth:
  assumes "j < length row"
  shows "head_payload_row c row ! j
           = (if even (length (filter (\<lambda>t. t = HEAD_ID c \<or> t = PKT_ID c) (take j row)))
              then 1 else 0)"
proof -
  let ?seg = "seg_token_mask_row c row"
  have l: "length ?seg = length row" by (simp add: seg_token_mask_row_def)
  have sj: "?seg ! j = (if row ! j = HEAD_ID c \<or> row ! j = PKT_ID c then 1 else 0)"
    using assms by (simp add: seg_token_mask_row_def)
  have tk: "take (Suc j) ?seg = take j ?seg @ [?seg ! j]"
    using assms l by (simp add: take_Suc_conv_app_nth)
  have "head_payload_row c row ! j = (flip_row ?seg ! j) XOR (?seg ! j)"
    using assms l by (simp add: head_payload_row_def Let_def)
  also have "\<dots> = (if even (length (filter (\<lambda>v. v = 1) (take j ?seg))) then 1 else 0)"
    using flip_row_nth[of j ?seg] assms l sj tk by auto
  finally show ?thesis by (simp add: seg_token_ones)
qed

lemma head_payload_row_length [simp]: "length (head_payload_row c row) = length row"
  by (simp add: head_payload_row_def Let_def seg_token_mask_row_def)

lemma header_region_spec_length [simp]: "length (header_region_spec c e row) = length row"
  by (induction row arbitrary: e) auto

lemma header_region_spec_nth:
  assumes "alternating c e row" "j < length row"
  shows "header_region_spec c e row ! j
           = (if even (length (filter (\<lambda>t. t = HEAD_ID c \<or> t = PKT_ID c) (take j row))) = e
              then 1 else 0)"
  using assms
proof (induction row arbitrary: e j)
  case Nil
  then show ?case by simp
next
  case (Cons t ts)
  show ?case
  proof (cases j)
    case 0
    then show ?thesis using Cons.prems by auto
  next
    case (Suc j')
    then have j': "j' < length ts" using Cons.prems by simp
    consider (head) "t = HEAD_ID c" | (pkt) "t \<noteq> HEAD_ID c" "t = PKT_ID c"
      | (other) "t \<noteq> HEAD_ID c" "t \<noteq> PKT_ID c" by blast
    then show ?thesis
    proof cases
      case head
      then have "e" "alternating c False ts" using Cons.prems by auto
      then show ?thesis using Cons.IH[of False j'] j' head Suc by simp
    next
      case pkt
      then have "\<not> e" "alternating c True ts" using Cons.prems by auto
      then show ?thesis using Cons.IH[of True j'] j' pkt Suc by simp
    next
      case other
      then have "alternating c e ts" using Cons.prems by auto
      then show ?thesis using Cons.IH[of e j'] j' other Suc by simp
    qed
  qed
qed

text \<open>
  Claim C9, as stated, fails: in a row with two \<open><pkt>\<close> markers and no \<open><head>\<close> the first
  \<open><pkt>\<close> is marked 1 and the token after it 0, since the code flips at every structural
  token whichever it is.
\<close>

theorem head_payload_any_arrangement_counterexample:
  "head_payload_row sample_collator [9, 4, 9, 4] = [1, 1, 0, 0] \<and>
   header_region_spec sample_collator True [9, 4, 9, 4] = [1, 0, 1, 0] \<and>
   head_payload_row sample_collator [9, 4, 9, 4]
     \<noteq> header_region_spec sample_collator True [9, 4, 9, 4]"
  by code_simp

text \<open>
  Claim C9, amended. On a row whose structural tokens alternate, \<open><head>\<close> first,
  \<open>head_payload_seg_ind\<close> is 1 exactly on the header regions, up to and including
  \<open><head>\<close>, and 0 on payload tokens and \<open><pkt>\<close> markers. Tokens after the last \<open><pkt>\<close>
  (EOS, padding) count as the header region of a next packet.
\<close>

theorem head_payload_alternating:
  assumes "alternating c True row"
  shows "head_payload_row c row = header_region_spec c True row"
proof (rule nth_equalityI)
  show "length (head_payload_row c row) = length (header_region_spec c True row)"
    by simp
next
  fix j assume "j < length (head_payload_row c row)"
  then have j: "j < length row" by simp
  show "head_payload_row c row ! j = header_region_spec c True row ! j"
    using head_payload_row_nth[OF j, of c] header_region_spec_nth[OF assms j] by simp
qed

theorem head_payload_alternating_witness:
  "alternating sample_collator True [9, 9, 3, 9, 9, 9, 4, 9, 9, 3, 9, 4, 1, 0] \<and>
   head_payload_row sample_collator [9, 9, 3, 9, 9, 9, 4, 9, 9, 3, 9, 4, 1, 0]
     = [1, 1, 1, 0, 0, 0, 0, 1, 1, 1, 0, 0, 1, 1]"
proof -
  have a: "alternating sample_collator True [9, 9, 3, 9, 9, 9, 4, 9, 9, 3, 9, 4, 1, 0]"
    by code_simp
  have "header_region_spec sample_collator True [9, 9, 3, 9, 9, 9, 4, 9, 9, 3, 9, 4, 1, 0]
          = [1, 1, 1, 0, 0, 0, 0, 1, 1, 1, 0, 0, 1, 1]"
    by code_simp
  then show ?thesis using a head_payload_alternating[OF a] by simp
qed

section \<open>Packet order of short flows\<close>

lemma truncate_packets_length:
  assumes "truncate_packets cfg decode current_len packets = Inr ps"
  shows "length ps = length packets"
proof -
  obtain hp where hp: "map_err (split_head cfg) packets = Inr hp"
    using assms by (auto simp: truncate_packets_def Let_def split: sum.splits)
  then have l: "length hp = length packets" by (simp add: map_err_Inr_iff)
  from assms hp obtain hps where
    "length hps = length hp" "ps = map (\<lambda>hp. fst hp @ [pt_HEAD_ID cfg] @ snd hp) hps"
    by (auto simp: truncate_packets_def Let_def map_err_Inr_iff split: sum.splits if_splits)
  then show ?thesis using l by simp
qed

lemma to_int8_small: "0 \<le> v \<Longrightarrow> v < 128 \<Longrightarrow> to_int8 v = v"
  by (simp add: to_int8_def)

text \<open>
  Claim C6, as stated, fails: a flow of two packets selected for POP with
  \<open>pop_switch_gap = 5\<close> keeps its packet order, but its \<open>pop_order\<close> row becomes
  \<open>[0, 1, -100]\<close>: the row is written after the branch on the packet count, not inside it.
\<close>

theorem pop_order_short_flow_counterexample:
  "tokenize_flow (sample_config\<lparr>pop_switch_gap := 5\<rparr>) sample_decode True 0 two_packet_flow
     = Inr ([10, 3, 11, 4, 20, 3, 21, 4, - 100, - 100, - 100, - 100, - 100, - 100, - 100, - 100],
            [0, 1, - 100]) \<and>
   [0, 1, - 100] \<noteq> replicate 3 (- 100 :: int)"
  by code_simp

text \<open>
  Claim C6, amended. For a flow selected for POP whose packet count \<open>n\<close> is at most
  \<open>pop_switch_gap\<close> (with \<open>pkt_per_flow\<close> within the range of \<open>int8\<close>), whenever
  \<open>tokenize_pt_func\<close> produces a row for the flow: the token row is the one produced for the
  same flow when it is not selected, so the packet order is unchanged, and the
  \<open>pop_order\<close> row holds \<open>0, 1, ..., n - 1\<close> in its first \<open>n\<close> slots and \<open>-100\<close> in the others.
\<close>

theorem pop_short_flow_identity:
  assumes "flow_packets cfg input_text = Inr packets"
    and "length packets \<le> pop_switch_gap cfg"
    and "pkt_per_flow cfg \<le> 128"
    and "tokenize_flow cfg decode True r input_text = Inr (row, pop_row)"
  shows "pop_row = map int [0..<length packets]
                     @ replicate (pkt_per_flow cfg - length packets) (- 100) \<and>
         tokenize_flow cfg decode False r input_text
           = Inr (row, replicate (pkt_per_flow cfg) (- 100))"
proof -
  let ?n = "length packets"
  define trunc where "trunc = (if optim_len cfg < int (length input_text)
                    then truncate_packets cfg decode (length input_text) packets
                    else Inr packets)"
  obtain packets2 where p2: "trunc = Inr packets2"
    using assms(1,4) by (auto simp: tokenize_flow_def Let_def trunc_def split: sum.splits)
  have l2: "length packets2 = ?n"
    using p2 truncate_packets_length by (auto simp: trunc_def split: if_splits)
  have perm: "pop_permute cfg r ?n = [0..<?n]"
    using assms(2) by (simp add: pop_permute_def)
  have same: "map (\<lambda>order. packets2 ! order) [0..<?n] = packets2"
    using l2 by (metis map_nth)
  obtain pr where pr: "assign_prefix (replicate (pkt_per_flow cfg) (- 100)) (map int [0..<?n]) = Inr pr"
    using assms(1,4) p2 perm
    by (auto simp: tokenize_flow_def Let_def trunc_def[symmetric] split: sum.splits)
  then have fits: "?n \<le> pkt_per_flow cfg"
    by (auto simp: assign_prefix_def split: if_splits)
  then have "?n \<le> 128" using assms(3) by simp
  then have prv: "pr = map int [0..<?n] @ replicate (pkt_per_flow cfg - ?n) (- 100)"
    using pr fits by (auto simp: assign_prefix_def to_int8_small split: if_splits)
  show ?thesis
    using assms(1,4) p2 perm same pr prv
    by (auto simp: tokenize_flow_def Let_def trunc_def[symmetric] split: if_splits)
qed

theorem pop_short_flow_identity_witness:
  "flow_packets (sample_config\<lparr>pop_switch_gap := 5\<rparr>) two_packet_flow
     = Inr [[10, 3, 11], [20, 3, 21]] \<and>
   length [[10, 3, 11], [20, 3, 21 :: int]] \<le> pop_switch_gap (sample_config\<lparr>pop_switch_gap := 5\<rparr>) \<and>
   pkt_per_flow (sample_config\<lparr>pop_switch_gap := 5\<rparr>) \<le> 128 \<and>
   tokenize_flow (sample_config\<lparr>pop_switch_gap := 5\<rparr>) sample_decode False 0 two_packet_flow
     = Inr ([10, 3, 11, 4, 20, 3, 21, 4, - 100, - 100, - 100, - 100, - 100, - 100, - 100, - 100],
            [- 100, - 100, - 100])"
proof -
  let ?cfg = "sample_config\<lparr>pop_switch_gap := 5\<rparr>"
  have a: "flow_packets ?cfg two_packet_flow = Inr [[10, 3, 11], [20, 3, 21]]"
    by code_simp
  have b: "length [[10, 3, 11], [20, 3, 21 :: int]] \<le> pop_switch_gap ?cfg"
    by code_simp
  have c: "pkt_per_flow ?cfg \<le> 128"
    by code_simp
  have d: "tokenize_flow ?cfg sample_decode True 0 two_packet_flow
     = Inr ([10, 3, 11, 4, 20, 3, 21, 4, - 100, - 100, - 100, - 100, - 100, - 100, - 100, - 100],
            [0, 1, - 100])"
    by code_simp
  have "pkt_per_flow ?cfg = 3" by code_simp
  then show ?thesis
    using a b c pop_short_flow_identity[OF a b c d] by (simp add: eval_nat_numeral)
qed

section \<open>The NML assertion of the Batch Assembler\<close>

lemma collator_call_checked:
  assumes "collator_call c rng examples = Inr b"
  shows "b_nml_labels b = map ex_nml_labels examples \<and>
         total_true (b_nml_mask b) = nml_label_quota (map ex_nml_labels examples)"
  using assms
  by (auto simp: collator_call_def Let_def split: if_splits sum.splits)

text \<open>
  Claim C2, as stated, fails: with one \<open><head>\<close> in the batch and five valid labels the
  assertion compares 1 with \<open>int(5 / 4) = 1\<close> and the batch is returned, although
  \<open>4 * 1\<close> is not 5.
\<close>

theorem nml_mask_times_four_counterexample:
  "map_sum id b_nml_mask (collator_call sample_collator reversing [five_label_example])
     = Inr [[False, True, False, False, False, False, False, False]] \<and>
   map_sum id b_nml_labels (collator_call sample_collator reversing [five_label_example])
     = Inr [[0, 2, 3, 2, 1, - 100, - 100, - 100]] \<and>
   4 * total_true [[False, True, False, False, False, False, False, False]] = 4 \<and>
   valid_label_count [[0, 2, 3, 2, 1, - 100, - 100, - 100]] = 5"
  by code_simp

text \<open>
  Claim C2, amended. On every batch the assembler returns, the number of \<open>True\<close> entries
  of \<open>nml_mask\<close> equals \<open>n div 4\<close>, where \<open>n\<close> is the number of \<open>nml_labels\<close> entries that are
  neither \<open>-100\<close> nor negative: this is what the assertion checks, and it raises on a
  mismatch. Hence four times the number of \<open>True\<close> entries equals the number of entries
  different from \<open>-100\<close> whenever that number is a multiple of 4 and no such entry is
  negative.
\<close>

theorem nml_mask_count_checked:
  assumes "collator_call c rng examples = Inr b"
  shows "total_true (b_nml_mask b) = nml_label_quota (b_nml_labels b) \<and>
         (list_all (\<lambda>v. v = - 100 \<or> 0 \<le> v) (concat (b_nml_labels b)) \<and>
          4 dvd valid_label_count (b_nml_labels b)
          \<longrightarrow> 4 * total_true (b_nml_mask b) = valid_label_count (b_nml_labels b))"
proof -
  have q: "total_true (b_nml_mask b) = nml_label_quota (b_nml_labels b)"
    using collator_call_checked[OF assms] by simp
  have "filter (\<lambda>v. 0 \<le> v) (filter (\<lambda>v. v \<noteq> - 100) xs) = filter (\<lambda>v. v \<noteq> - 100) xs"
    if "list_all (\<lambda>v. v = - 100 \<or> 0 \<le> v) xs" for xs :: "int list"
    using that by (induction xs) auto
  then have "nml_label_quota (b_nml_labels b) = valid_label_count (b_nml_labels b) div 4"
    if "list_all (\<lambda>v. v = - 100 \<or> 0 \<le> v) (concat (b_nml_labels b))"
    using that by (simp add: nml_label_quota_def valid_label_count_def)
  then show ?thesis using q by auto
qed

theorem nml_mask_count_checked_witness:
  "map_sum id b_nml_mask (collator_call sample_collator reversing [four_label_example])
     = Inr [[False, True, False, False, False, False, False, False]] \<and>
   total_true [[False, True, False, False, False, False, False, False]]
     = nml_label_quota [[0, 2, 3, 2, - 100, - 100, - 100, - 100]] \<and>
   4 * total_true [[False, True, False, False, False, False, False, False]]
     = valid_label_count [[0, 2, 3, 2, - 100, - 100, - 100, - 100]]"
proof -
  obtain b where b: "collator_call sample_collator reversing [four_label_example] = Inr b"
    and m: "b_nml_mask b = [[False, True, False, False, False, False, False, False]]"
    and l: "b_nml_labels b = [[0, 2, 3, 2, - 100, - 100, - 100, - 100]]"
  proof -
    have "collator_call sample_collator reversing [four_label_example]
      = Inr \<lparr>b_input_ids = [[10, 3, 11, 4, 1, 0, 0, 0]],
            b_labels = [[1, - 100, - 100, - 100, - 100, - 100, - 100, - 100]],
            b_pop_order = [[- 100, - 100]],
            b_nml_labels = [[0, 2, 3, 2, - 100, - 100, - 100, - 100]],
            b_pop_mask = [[False, False, False, False, False, False, False, False]],
            b_nml_mask = [[False, True, False, False, False, False, False, False]],
            b_pkt_seg_ind = [[0, 0, 0, 0, 1, 1, 1, 1]],
            b_head_payload_seg_ind = [[1, 1, 0, 0, 1, 1, 1, 1]]\<rparr>"
      by code_simp
    then show ?thesis using that by simp
  qed
  have v: "list_all (\<lambda>v. v = - 100 \<or> 0 \<le> v) (concat [[0, 2, 3, 2, - 100, - 100, - 100, - 100 :: int]])"
    by simp
  have n: "valid_label_count [[0, 2, 3, 2, - 100, - 100, - 100, - 100]] = 4"
    by code_simp
  show ?thesis
    using nml_mask_count_checked[OF b] b m l v n by simp
qed

section \<open>Counts of \<open>np.unique\<close> on a cumulative sum\<close>

lemma cumsum_from_ge:
  assumes "\<forall>x \<in> set xs. 0 \<le> x"
  shows "\<forall>y \<in> set (cumsum_from a xs). a \<le> y"
  using assms
proof (induction xs arbitrary: a)
  case Nil
  then show ?case by simp
next
  case (Cons x xs)
  then have "\<forall>y \<in> set (cumsum_from (a + x) xs). a + x \<le> y" by simp
  then show ?case using Cons.prems by fastforce
qed

lemma cumsum_from_sorted:
  assumes "\<forall>x \<in> set xs. 0 \<le> x"
  shows "sorted (cumsum_from a xs)"
  using assms
proof (induction xs arbitrary: a)
  case Nil
  then show ?case by simp
next
  case (Cons x xs)
  then show ?case using cumsum_from_ge[of xs "a + x"] by simp
qed

text \<open>
  The counts regroup the flags: the flags, behind a leading 1, are one block
  \<open>1, 0, ..., 0\<close> of length \<open>n\<close> for every count \<open>n\<close>.
\<close>

lemma run_lengths_cumsum:
  assumes "\<forall>f \<in> set F. f = 0 \<or> f = 1"
  shows "list_all (\<lambda>n. 1 \<le> n) (run_lengths (v # cumsum_from v F)) \<and>
         concat (map (\<lambda>n. (1::int) # replicate (n - 1) 0) (run_lengths (v # cumsum_from v F)))
           = 1 # F"
  using assms
proof (induction F arbitrary: v)
  case Nil
  then show ?case by simp
next
  case (Cons f F)
  have f: "f = 0 \<or> f = 1" using Cons.prems by simp
  have rest: "\<forall>f \<in> set F. f = 0 \<or> f = 1" using Cons.prems by simp
  show ?case
  proof (cases "f = 0")
    case True
    from Cons.IH[OF rest, of v] obtain n ns where
      rl: "run_lengths (v # cumsum_from v F) = n # ns" and n: "1 \<le> n"
      and ns: "list_all (\<lambda>n. 1 \<le> n) ns"
      and cc: "(1::int) # replicate (n - 1) 0 @ concat (map (\<lambda>n. 1 # replicate (n - 1) 0) ns) = 1 # F"
      by (cases "run_lengths (v # cumsum_from v F)") auto
    have "replicate n (0::int) = 0 # replicate (n - 1) 0"
      using n by (cases n) auto
    then show ?thesis using True rl n ns cc by simp
  next
    case False
    then have "f = 1" using f by simp
    then show ?thesis using Cons.IH[OF rest, of "v + 1"] by simp
  qed
qed

lemma ones_in_blocks:
  "length (filter (\<lambda>x. x = 1) (concat (map (\<lambda>n. (1::int) # replicate (n - 1) 0) ns))) = length ns"
  by (induction ns) auto

lemma length_of_blocks:
  "list_all (\<lambda>n. 1 \<le> n) ns \<Longrightarrow>
   length (concat (map (\<lambda>n. (1::int) # replicate (n - 1) 0) ns)) = sum_list ns"
  by (induction ns) auto

lemma np_unique_counts_cumsum:
  assumes "\<forall>f \<in> set F. f = 0 \<or> f = 1"
  shows "np_unique_counts (v # cumsum_from v F) = run_lengths (v # cumsum_from v F)"
proof -
  have "\<forall>x \<in> set F. 0 \<le> x" using assms by auto
  then have "sorted (v # cumsum_from v F)"
    using cumsum_from_sorted[of F v] cumsum_from_ge[of F v] by simp
  then have "sort (v # cumsum_from v F) = v # cumsum_from v F"
    by (rule sorted_sort_id)
  then show ?thesis by (simp only: np_unique_counts_def)
qed

section \<open>The Segment-Aware Masker\<close>

lemma fold_update_length [simp]:
  "length (fold (\<lambda>s ind. ind[nat s := (1::int)]) ss X) = length X"
  by (induction ss arbitrary: X) auto

lemma random_spans_noise_mask_length:
  assumes "random_spans_noise_mask c rng k len = Inr (m, k')"
  shows "length m = len \<and> k' = k + 2"
proof -
  have "\<exists>ss. m = take len (map (\<lambda>v. v mod 2 = 1)
                 (np_cumsum (fold (\<lambda>s ind. ind[nat s := 1]) ss (replicate len 0)))) \<and>
             k' = k + 2"
    using assms unfolding random_spans_noise_mask_def Let_def
    by (simp only: sum.inject prod.inject sum.distinct split: if_splits) blast
  then show ?thesis by auto
qed

lemma mask_segments_structure:
  assumes "mask_segments c rng k segs acc = Inr (fm, k')"
  shows "\<exists>B. fm = acc @ B \<and>
           length B = length (concat (map (\<lambda>s. (1::int) # replicate s 0) segs)) \<and>
           (\<forall>j<length B. concat (map (\<lambda>s. (1::int) # replicate s 0) segs) ! j = 1 \<longrightarrow> \<not> B ! j)"
  using assms
proof (induction segs arbitrary: k acc)
  case Nil
  then show ?case by simp
next
  case (Cons s segs)
  let ?flags = "concat (map (\<lambda>s. (1::int) # replicate s 0) segs)"
  obtain m k1 where m: "length m = s"
    and rec: "mask_segments c rng k1 segs ((acc @ [False]) @ m) = Inr (fm, k')"
  proof (cases "min_mask_span_length c \<le> int s")
    case True
    then obtain m k1 where r: "random_spans_noise_mask c rng k s = Inr (m, k1)"
      and "mask_segments c rng k1 segs ((acc @ [False]) @ m) = Inr (fm, k')"
      using Cons.prems by (auto split: sum.splits)
    then show ?thesis using that random_spans_noise_mask_length[OF r] by blast
  next
    case False
    then have "mask_segments c rng k segs ((acc @ [False]) @ replicate s False) = Inr (fm, k')"
      using Cons.prems by simp
    then show ?thesis using that[of "replicate s False" k] by simp
  qed
  from Cons.IH[OF rec] obtain B where B: "fm = ((acc @ [False]) @ m) @ B"
    "length B = length ?flags" "\<forall>j<length B. ?flags ! j = 1 \<longrightarrow> \<not> B ! j"
    by blast
  let ?B' = "False # m @ B"
  have "fm = acc @ ?B'" using B(1) by simp
  moreover have "length ?B' = length (concat (map (\<lambda>s. (1::int) # replicate s 0) (s # segs)))"
    using B(2) m by simp
  moreover have "\<not> ?B' ! j"
    if "j < length ?B'" "concat (map (\<lambda>s. (1::int) # replicate s 0) (s # segs)) ! j = 1" for j
  proof (cases j)
    case 0
    then show ?thesis by simp
  next
    case (Suc i)
    show ?thesis
    proof (cases "i < s")
      case True
      then have "concat (map (\<lambda>s. (1::int) # replicate s 0) (s # segs)) ! j = 0"
        using Suc by (simp add: nth_append)
      then show ?thesis using that(2) by simp
    next
      case False
      then have "concat (map (\<lambda>s. (1::int) # replicate s 0) (s # segs)) ! j = ?flags ! (i - s)"
        using Suc by (simp add: nth_append)
      moreover have "?B' ! j = B ! (i - s)" using Suc False m by (simp add: nth_append)
      moreover have "i - s < length B" using that(1) Suc False m by simp
      ultimately show ?thesis using B(3) that(2) by simp
    qed
  qed
  ultimately show ?case by blast
qed

text \<open>
  Claim C5. Whenever \<open>segment_spans_random_mask\<close> returns a mask, the mask has the length
  of the array of attendable flags, and it is \<open>False\<close> at every position whose flag is 0
  (the structural tokens \<open><head>\<close> and \<open><pkt>\<close>).
\<close>

theorem segment_mask_excludes_structural:
  assumes "segment_spans_random_mask c rng k attn_mask = Inr (m, k')"
    and "i < length attn_mask" and "attn_mask ! i = 0"
  shows "length m = length attn_mask \<and> \<not> m ! i"
proof -
  let ?F = "map (\<lambda>v. if v = 0 then 1 else (0::int)) attn_mask"
  let ?rl = "run_lengths (1 # cumsum_from 1 ?F)"
  let ?segs = "map (\<lambda>n. n - 1) ?rl"
  have F01: "\<forall>f \<in> set ?F. f = 0 \<or> f = 1" by auto
  have sid: "np_cumsum (map (\<lambda>v. if v = 0 then 1 else 0) (0 # attn_mask)) = 1 # cumsum_from 1 ?F"
    by (simp add: np_cumsum_def)
  have segs: "map (\<lambda>n. n - 1) (np_unique_counts
                (np_cumsum (map (\<lambda>v. if v = 0 then 1 else 0) (0 # attn_mask)))) = ?segs"
    using np_unique_counts_cumsum[OF F01, of 1] sid by simp
  obtain fm where fm: "mask_segments c rng k ?segs [] = Inr (fm, k')"
    and len: "length fm = length attn_mask + 1" and mt: "m = tl fm"
    using assms(1) unfolding segment_spans_random_mask_def Let_def segs
    by (auto split: sum.splits if_splits)
  have flags: "concat (map (\<lambda>s. (1::int) # replicate s 0) ?segs) = 1 # ?F"
    using run_lengths_cumsum[OF F01, of 1] by (simp add: comp_def)
  from mask_segments_structure[OF fm] flags
  have "\<forall>j<length fm. (1 # ?F) ! j = 1 \<longrightarrow> \<not> fm ! j"
    by auto
  then have "\<not> fm ! Suc i" using assms(2,3) len by auto
  moreover have "m ! i = fm ! Suc i" using mt len assms(2) by (cases fm) auto
  moreover have "length m = length attn_mask" using mt len by simp
  ultimately show ?thesis by simp
qed

theorem segment_mask_excludes_structural_witness:
  "segment_spans_random_mask sample_collator reversing 0
       [1, 1, 1, 1, 1, 1, 1, 1, 0, 1, 1, 1, 0]
     = Inr ([False, False, False, False, False, False, False, True,
             False, False, False, False, False], 2) \<and>
   (8::nat) < length [1, 1, 1, 1, 1, 1, 1, 1, 0, 1, 1, 1, 0 :: int] \<and>
   [1, 1, 1, 1, 1, 1, 1, 1, 0, 1, 1, 1, 0 :: int] ! 8 = 0 \<and>
   \<not> [False, False, False, False, False, False, False, True,
             False, False, False, False, False] ! 8"
proof -
  have r: "segment_spans_random_mask sample_collator reversing 0
       [1, 1, 1, 1, 1, 1, 1, 1, 0, 1, 1, 1, 0]
     = Inr ([False, False, False, False, False, False, False, True,
             False, False, False, False, False], 2)"
    by code_simp
  have i: "(8::nat) < length [1, 1, 1, 1, 1, 1, 1, 1, 0, 1, 1, 1, 0 :: int]"
    and z: "[1, 1, 1, 1, 1, 1, 1, 1, 0, 1, 1, 1, 0 :: int] ! 8 = 0"
    by simp_all
  show ?thesis
    using r i z segment_mask_excludes_structural[OF r i z] by simp
qed

section \<open>The Span Noise Mask Generator\<close>

subsection \<open>Random segmentation\<close>

lemma permuting_length:
  assumes "permuting rng"
  shows "length (rng k xs) = length xs"
  using assms by (metis permuting_def mset_eq_length)

lemma permuting_count:
  assumes "permuting rng"
  shows "length (filter P (rng k xs)) = length (filter P xs)"
proof -
  have "mset (filter P (rng k xs)) = mset (filter P xs)"
    using assms by (simp add: permuting_def)
  then show ?thesis by (metis mset_eq_length)
qed

lemma count_below: "length (filter (\<lambda>i. int i < t) [0..<n]) = min n (nat t)"
  by (induction n) auto

lemma ones_of_bools:
  "length (filter (\<lambda>x. x = (1::int)) (map (\<lambda>b. if b then 1 else 0) bs)) = length (filter id bs)"
  by (induction bs) auto

lemma random_segmentation_facts:
  assumes "permuting rng" "1 \<le> num_items"
  shows "list_all (\<lambda>n. 1 \<le> n) (random_segmentation (rng k) num_items num_segments) \<and>
         sum_list (random_segmentation (rng k) num_items num_segments) = nat num_items \<and>
         length (random_segmentation (rng k) num_items num_segments)
           = 1 + min (nat (num_items - 1)) (nat (num_segments - 1))"
proof -
  let ?mi = "map (\<lambda>i. int i < num_segments - 1) [0..<nat (num_items - 1)]"
  let ?B = "map (\<lambda>b. if b then 1 else (0::int)) (rng k ?mi)"
  let ?rl = "run_lengths (0 # cumsum_from 0 ?B)"
  have B01: "\<forall>f \<in> set ?B. f = 0 \<or> f = 1" by auto
  have rs: "random_segmentation (rng k) num_items num_segments = ?rl"
    using np_unique_counts_cumsum[OF B01, of 0]
    by (simp add: random_segmentation_def np_cumsum_def)
  have pos: "list_all (\<lambda>n. 1 \<le> n) ?rl"
    and blocks: "concat (map (\<lambda>n. (1::int) # replicate (n - 1) 0) ?rl) = 1 # ?B"
    using run_lengths_cumsum[OF B01, of 0] by simp_all
  have "sum_list ?rl = length (1 # ?B)"
    using length_of_blocks[OF pos] blocks by simp
  also have "\<dots> = 1 + nat (num_items - 1)"
    using permuting_length[OF assms(1)] by simp
  finally have sum: "sum_list ?rl = nat num_items" using assms(2) by simp
  have "length ?rl = length (filter (\<lambda>x. x = 1) (1 # ?B))"
    using ones_in_blocks[of ?rl] blocks by simp
  also have "\<dots> = 1 + length (filter id (rng k ?mi))"
    using ones_of_bools[of "rng k ?mi"] by simp
  also have "\<dots> = 1 + length (filter id ?mi)"
    using permuting_count[OF assms(1)] by simp
  also have "\<dots> = 1 + min (nat (num_items - 1)) (nat (num_segments - 1))"
    by (simp add: filter_map comp_def count_below)
  finally show ?thesis using rs pos sum by simp
qed

subsection \<open>From span lengths to the mask\<close>

lemma cumsum_from_zeros:
  "cumsum_from v (replicate n 0 @ Y) = replicate n v @ cumsum_from v Y"
  by (induction n) auto

lemma cumsum_from_nonempty: "xs \<noteq> [] \<Longrightarrow> cumsum_from v xs \<noteq> []"
  by (cases xs) auto

lemma fold_starts:
  assumes "L \<noteq> []" "list_all (\<lambda>l. 1 \<le> l) L" "length P = o'"
  shows "fold (\<lambda>s ind. ind[nat s := (1::int)])
           (butlast (cumsum_from (int o') (map int L)))
           (P @ x # replicate (sum_list L - 1) 0)
         = P @ x # tl (concat (map (\<lambda>l. 1 # replicate (l - 1) 0) L))"
  using assms
proof (induction L arbitrary: P x o')
  case Nil
  then show ?case by simp
next
  case (Cons l L)
  have l: "1 \<le> l" using Cons.prems(2) by simp
  show ?case
  proof (cases "L = []")
    case True
    then show ?thesis by simp
  next
    case False
    have pos: "list_all (\<lambda>l. 1 \<le> l) L" using Cons.prems(2) by simp
    have sumpos: "1 \<le> sum_list L"
      using False pos by (cases L) auto
    let ?P' = "P @ x # replicate (l - 1) 0"
    have lenP': "length ?P' = o' + l" using Cons.prems(3) l by simp
    have bl: "butlast (cumsum_from (int o') (map int (l # L)))
                = (int o' + int l) # butlast (cumsum_from (int o' + int l) (map int L))"
      using False cumsum_from_nonempty[of "map int L"] by simp
    have rep: "replicate (sum_list (l # L) - 1) (0::int)
                 = replicate (l - 1) 0 @ 0 # replicate (sum_list L - 1) 0"
    proof -
      have "sum_list (l # L) - 1 = (l - 1) + Suc (sum_list L - 1)"
        using l sumpos by simp
      then show ?thesis by (simp only: replicate_add replicate_Suc)
    qed
    have upd: "(P @ x # replicate (sum_list (l # L) - 1) 0)[o' + l := 1]
                 = ?P' @ 1 # replicate (sum_list L - 1) 0"
    proof -
      have "(P @ x # replicate (l - 1) 0 @ 0 # replicate (sum_list L - 1) 0)[o' + l := 1]
              = (?P' @ 0 # replicate (sum_list L - 1) 0)[length ?P' := 1]"
        using lenP' by simp
      also have "\<dots> = ?P' @ 1 # replicate (sum_list L - 1) 0"
        by (simp only: list_update_length)
      finally show ?thesis using rep by simp
    qed
    have "fold (\<lambda>s ind. ind[nat s := (1::int)])
            (butlast (cumsum_from (int o') (map int (l # L))))
            (P @ x # replicate (sum_list (l # L) - 1) 0)
          = fold (\<lambda>s ind. ind[nat s := (1::int)])
              (butlast (cumsum_from (int (o' + l)) (map int L)))
              (?P' @ 1 # replicate (sum_list L - 1) 0)"
      using bl upd by (simp add: nat_add_distrib)
    also have "\<dots> = ?P' @ 1 # tl (concat (map (\<lambda>l. 1 # replicate (l - 1) 0) L))"
      by (rule Cons.IH[OF False pos lenP'])
    also have "\<dots> = P @ x # tl (concat (map (\<lambda>l. 1 # replicate (l - 1) 0) (l # L)))"
      using False by (cases L) auto
    finally show ?thesis .
  qed
qed

lemma parity_blocks:
  assumes "odd v" "list_all (\<lambda>p. 1 \<le> fst p \<and> 1 \<le> snd p) ps"
  shows "map (\<lambda>w. w mod 2 = 1)
           (cumsum_from v (concat (map (\<lambda>l. (1::int) # replicate (l - 1) 0)
                                     (concat (map2 (\<lambda>a b. [a, b]) (map fst ps) (map snd ps))))))
         = concat (map (\<lambda>p. replicate (fst p) False @ replicate (snd p) True) ps)"
  using assms
proof (induction ps arbitrary: v)
  case Nil
  then show ?case by simp
next
  case (Cons p ps)
  obtain a b where p: "p = (a, b)" by (cases p)
  have ab: "1 \<le> a" "1 \<le> b" and rest: "list_all (\<lambda>p. 1 \<le> fst p \<and> 1 \<le> snd p) ps"
    using Cons.prems(2) p by simp_all
  have odd2: "odd (v + 2)" using Cons.prems(1) by simp
  have ra: "replicate a False = False # replicate (a - 1) False"
    and rb: "replicate b True = True # replicate (b - 1) True"
    using ab by (cases a, simp, simp, cases b, simp, simp)
  have m1: "(v + 1) mod 2 \<noteq> 1" using Cons.prems(1) by presburger
  have m2: "(v + 1 + 1) mod 2 = 1" using Cons.prems(1) by presburger
  show ?case
    using Cons.IH[OF odd2 rest] p ra rb m1 m2
    by (simp add: cumsum_from_zeros add.assoc)
qed

subsection \<open>Masks made of alternating blocks\<close>

lemma count_true_blocks:
  "count_true (concat (map (\<lambda>p. replicate (fst p) False @ replicate (snd p) True) ps))
     = sum_list (map snd ps)"
  by (induction ps) (auto simp: count_true_def)

lemma true_runs_False: "true_runs (False # Y) = true_runs Y"
  by (cases Y) auto

lemma true_runs_Falses: "true_runs (replicate a False @ Y) = true_runs Y"
  by (induction a) (auto simp: true_runs_False)

lemma true_runs_Trues:
  assumes "Y = [] \<or> \<not> hd Y"
  shows "true_runs (replicate (Suc b) True @ Y) = Suc (true_runs Y)"
proof (induction b)
  case 0
  then show ?case using assms by (cases Y) auto
next
  case (Suc b)
  then show ?case by simp
qed

lemma blocks_hd:
  assumes "list_all (\<lambda>p. 1 \<le> fst p \<and> 1 \<le> snd p) ps"
  shows "concat (map (\<lambda>p. replicate (fst p) False @ replicate (snd p) True) ps) = [] \<or>
         \<not> hd (concat (map (\<lambda>p. replicate (fst p) False @ replicate (snd p) True) ps))"
proof (cases ps)
  case Nil
  then show ?thesis by simp
next
  case (Cons p qs)
  then have "1 \<le> fst p" using assms by simp
  then obtain a where "fst p = Suc a" by (cases "fst p") auto
  then show ?thesis using Cons by simp
qed

lemma true_runs_blocks:
  assumes "list_all (\<lambda>p. 1 \<le> fst p \<and> 1 \<le> snd p) ps"
  shows "true_runs (concat (map (\<lambda>p. replicate (fst p) False @ replicate (snd p) True) ps))
           = length ps"
  using assms
proof (induction ps)
  case Nil
  then show ?case by simp
next
  case (Cons p ps)
  then have rest: "list_all (\<lambda>p. 1 \<le> fst p \<and> 1 \<le> snd p) ps" by simp
  obtain b where b: "snd p = Suc b" using Cons.prems by (cases "snd p") auto
  show ?case
    using Cons.IH[OF rest] b true_runs_Trues[OF blocks_hd[OF rest], of b]
    by (simp add: true_runs_Falses)
qed

lemma blocks_last:
  assumes "list_all (\<lambda>p. 1 \<le> fst p \<and> 1 \<le> snd p) ps" "ps \<noteq> []"
  shows "last (concat (map (\<lambda>p. replicate (fst p) False @ replicate (snd p) True) ps))"
proof -
  obtain qs p where ps: "ps = qs @ [p]" using assms(2) by (metis rev_exhaust)
  then have "1 \<le> snd p" using assms(1) by simp
  then obtain b where "snd p = Suc b" by (cases "snd p") auto
  then show ?thesis using ps by (simp add: replicate_append_same)
qed

lemma blocks_length:
  "length (concat (map (\<lambda>p. replicate (fst p) False @ replicate (snd p) True) ps))
     = sum_list (map fst ps) + sum_list (map snd ps)"
  by (induction ps) auto

subsection \<open>The mask returned by \<open>random_spans_noise_mask\<close>\<close>

lemma flat_facts:
  fixes ps :: "(nat \<times> nat) list"
  assumes "list_all (\<lambda>p. 1 \<le> fst p \<and> 1 \<le> snd p) ps"
  shows "list_all (\<lambda>l. 1 \<le> l) (concat (map2 (\<lambda>a b. [a, b]) (map fst ps) (map snd ps))) \<and>
         sum_list (concat (map2 (\<lambda>a b. [a, b]) (map fst ps) (map snd ps)))
           = sum_list (map fst ps) + sum_list (map snd ps)"
  using assms by (induction ps) auto

lemma starts_below:
  assumes "list_all (\<lambda>l. 1 \<le> l) L"
  shows "\<forall>s \<in> set (butlast (cumsum_from a (map int L))). s < a + int (sum_list L)"
  using assms
proof (induction L arbitrary: a)
  case Nil
  then show ?case by simp
next
  case (Cons l L)
  show ?case
  proof (cases "L = []")
    case True
    then show ?thesis by simp
  next
    case False
    then have ne: "cumsum_from (a + int l) (map int L) \<noteq> []"
      using cumsum_from_nonempty[of "map int L"] by simp
    have pos: "list_all (\<lambda>l. 1 \<le> l) L" and l: "1 \<le> l" using Cons.prems by simp_all
    have "1 \<le> sum_list L" using False pos by (cases L) auto
    then show ?thesis using Cons.IH[OF pos, of "a + int l"] ne l by auto
  qed
qed

lemma np_round_le:
  assumes "x \<le> of_int n"
  shows "np_round x \<le> n"
proof -
  have f: "of_int \<lfloor>x\<rfloor> \<le> x" by simp
  have le: "\<lfloor>x\<rfloor> \<le> n" using assms by (simp add: floor_le_iff)
  have step: "\<lfloor>x\<rfloor> + 1 \<le> n" if "1 / 2 \<le> x - of_int \<lfloor>x\<rfloor>"
  proof -
    have "(of_int \<lfloor>x\<rfloor> :: rat) < of_int n" using that assms by linarith
    then show ?thesis by simp
  qed
  show ?thesis
    using le step by (auto simp: np_round_def Let_def)
qed

lemma random_spans_noise_mask_unfold:
  fixes len :: nat and c :: collator and rng :: shuffler and k :: nat
  defines "nnt \<equiv> min (max (np_round (fl_mul (arith c) (of_nat len) (noise_density c))) 1)
                     (int len - 1)"
  defines "spans \<equiv> max (np_round (fl_div (arith c) (of_int nnt) (mean_noise_span_length c))) 1"
  defines "noise \<equiv> random_segmentation (rng k) nnt spans"
  defines "nonnoise \<equiv> random_segmentation (rng (k + 1)) (int len - nnt) spans"
  defines "starts \<equiv> butlast (np_cumsum (map int (concat (map2 (\<lambda>a b. [a, b]) nonnoise noise))))"
  shows "random_spans_noise_mask c rng k len =
    (if mean_noise_span_length c = 0 then Inl ZeroDivisionError
     else if length nonnoise \<noteq> length noise then Inl ValueError
     else if 2 * int (length noise) \<noteq> spans * 2 then Inl ValueError
     else if \<exists>s \<in> set starts. int len \<le> s then Inl IndexError
     else Inr (take len (map (\<lambda>v. v mod 2 = 1)
                 (np_cumsum (fold (\<lambda>s ind. ind[nat s := 1]) starts (replicate len 0)))),
               k + 2))"
  unfolding random_spans_noise_mask_def Let_def nnt_def spans_def noise_def nonnoise_def starts_def
  by (rule refl)

text \<open>
  With span lengths that are positive and add up to the length, the mask is the
  sequence of blocks: clean span, noise span, clean span, noise span, ...
\<close>

lemma mask_of_spans:
  fixes len :: nat
  assumes pos: "list_all (\<lambda>p. 1 \<le> fst p \<and> 1 \<le> snd p) ps" and ne: "ps \<noteq> []"
    and total: "sum_list (map fst ps) + sum_list (map snd ps) = len"
  shows "take len (map (\<lambda>v. v mod 2 = 1)
           (np_cumsum (fold (\<lambda>s ind. ind[nat s := 1])
              (butlast (np_cumsum (map int (concat (map2 (\<lambda>a b. [a, b]) (map fst ps) (map snd ps))))))
              (replicate len 0))))
         = concat (map (\<lambda>p. replicate (fst p) False @ replicate (snd p) True) ps)"
proof -
  let ?L = "concat (map2 (\<lambda>a b. [a, b]) (map fst ps) (map snd ps))"
  let ?ind = "concat (map (\<lambda>l. (1::int) # replicate (l - 1) 0) ?L)"
  let ?blocks = "concat (map (\<lambda>p. replicate (fst p) False @ replicate (snd p) True) ps)"
  have Lpos: "list_all (\<lambda>l. 1 \<le> l) ?L" and Lsum: "sum_list ?L = len"
    using flat_facts[OF pos] total by simp_all
  have Lne: "?L \<noteq> []" using ne by (cases ps) auto
  then obtain l L' where L: "?L = l # L'" by (cases ?L) auto
  have ind: "?ind = 1 # tl ?ind" unfolding L by simp
  have len1: "1 \<le> len" using Lsum Lpos L by (cases len) auto
  then have rep: "replicate len (0::int) = [] @ 0 # replicate (sum_list ?L - 1) 0"
    using Lsum by (cases len) auto
  have "fold (\<lambda>s ind. ind[nat s := 1]) (butlast (np_cumsum (map int ?L))) (replicate len 0)
          = [] @ 0 # tl ?ind"
    unfolding rep np_cumsum_def
    using fold_starts[OF Lne Lpos, of "[]" 0 0] by simp
  then have "np_cumsum (fold (\<lambda>s ind. ind[nat s := 1]) (butlast (np_cumsum (map int ?L)))
                 (replicate len 0))
          = cumsum_from 0 (0 # tl ?ind)"
    by (simp add: np_cumsum_def)
  also have "\<dots> = cumsum_from (- 1) (1 # tl ?ind)" by simp
  also have "\<dots> = cumsum_from (- 1) ?ind" using ind by simp
  finally have "map (\<lambda>v. v mod 2 = 1)
        (np_cumsum (fold (\<lambda>s ind. ind[nat s := 1]) (butlast (np_cumsum (map int ?L)))
                 (replicate len 0))) = ?blocks"
    using parity_blocks[OF _ pos, of "- 1"] by simp
  moreover have "length ?blocks = len" using blocks_length[of ps] total by simp
  ultimately show ?thesis by simp
qed

lemma noise_mask_blocks:
  fixes len :: nat and c :: collator
  defines "nnt \<equiv> min (max (np_round (fl_mul (arith c) (of_nat len) (noise_density c))) 1)
                     (int len - 1)"
  defines "spans \<equiv> max (np_round (fl_div (arith c) (of_int nnt) (mean_noise_span_length c))) 1"
  assumes "permuting rng" "2 \<le> len" "random_spans_noise_mask c rng k len = Inr (m, k')"
  shows "\<exists>ps. ps \<noteq> [] \<and> list_all (\<lambda>p. 1 \<le> fst p \<and> 1 \<le> snd p) ps \<and>
           m = concat (map (\<lambda>p. replicate (fst p) False @ replicate (snd p) True) ps) \<and>
           int (sum_list (map snd ps)) = nnt \<and> int (length ps) = spans \<and>
           sum_list (map fst ps) + sum_list (map snd ps) = len"
proof -
  define noise where "noise = random_segmentation (rng k) nnt spans"
  define nonnoise where "nonnoise = random_segmentation (rng (k + 1)) (int len - nnt) spans"
  define ps where "ps = zip nonnoise noise"
  have range: "1 \<le> nnt" "1 \<le> int len - nnt"
    using assms(4) by (auto simp: nnt_def)
  note unf = random_spans_noise_mask_unfold[of c rng k len,
      folded nnt_def spans_def noise_def nonnoise_def]
  have eq: "length nonnoise = length noise" and sp: "2 * int (length noise) = spans * 2"
    and m: "m = take len (map (\<lambda>v. v mod 2 = 1)
                 (np_cumsum (fold (\<lambda>s ind. ind[nat s := 1])
                    (butlast (np_cumsum (map int (concat (map2 (\<lambda>a b. [a, b]) nonnoise noise)))))
                    (replicate len 0))))"
    using assms(5) unfolding unf by (simp_all split: if_splits)
  have fs: "map fst ps = nonnoise" "map snd ps = noise"
    using eq by (simp_all add: ps_def)
  have n1: "list_all (\<lambda>n. 1 \<le> n) noise" "sum_list noise = nat nnt"
    and n2: "list_all (\<lambda>n. 1 \<le> n) nonnoise" "sum_list nonnoise = nat (int len - nnt)"
    using random_segmentation_facts[OF assms(3) range(1), of k spans]
      random_segmentation_facts[OF assms(3) range(2), of "k + 1" spans]
    by (simp_all add: noise_def nonnoise_def)
  have pos: "list_all (\<lambda>p. 1 \<le> fst p \<and> 1 \<le> snd p) ps"
    using n1(1) n2(1) eq by (auto simp: ps_def list_all_length)
  have "1 \<le> spans" by (simp add: spans_def)
  then have "noise \<noteq> []" using sp by auto
  then have ne: "ps \<noteq> []" using eq by (auto simp: ps_def)
  have total: "sum_list (map fst ps) + sum_list (map snd ps) = len"
    using fs n1(2) n2(2) range by simp
  have "m = concat (map (\<lambda>p. replicate (fst p) False @ replicate (snd p) True) ps)"
    unfolding m by (rule mask_of_spans[OF pos ne total, unfolded fs])
  moreover have "int (sum_list (map snd ps)) = nnt" using fs n1(2) range by simp
  moreover have "int (length ps) = spans" using sp eq by (simp add: ps_def)
  ultimately show ?thesis using ne pos total by blast
qed

lemma permuting_reversing: "permuting reversing"
  by (simp add: permuting_def reversing_def)

text \<open>
  Claim C10. A mask returned by \<open>random_spans_noise_mask\<close> for a length of at least 2
  (\<open>np.random.shuffle\<close> permuting its argument) has that length, starts with a clean
  position and ends with a noise position.
\<close>

theorem noise_mask_ends:
  assumes "permuting rng" and "2 \<le> len"
    and "random_spans_noise_mask c rng k len = Inr (m, k')"
  shows "length m = len \<and> \<not> m ! 0 \<and> m ! (len - 1)"
proof -
  from noise_mask_blocks[OF assms] obtain ps where ne: "ps \<noteq> []"
    and pos: "list_all (\<lambda>p. 1 \<le> fst p \<and> 1 \<le> snd p) ps"
    and m: "m = concat (map (\<lambda>p. replicate (fst p) False @ replicate (snd p) True) ps)"
    and total: "sum_list (map fst ps) + sum_list (map snd ps) = len"
    by blast
  have len: "length m = len" using m total blocks_length[of ps] by simp
  then have mne: "m \<noteq> []" using assms(2) by auto
  have "\<not> hd m" using blocks_hd[OF pos] mne unfolding m by blast
  moreover have "last m" using blocks_last[OF pos ne] m by simp
  ultimately show ?thesis using len mne by (simp add: hd_conv_nth last_conv_nth)
qed

theorem noise_mask_ends_witness:
  "permuting reversing \<and> (2::nat) \<le> 8 \<and>
   random_spans_noise_mask sample_collator reversing 0 8
     = Inr ([False, False, False, False, False, False, False, True], 2) \<and>
   \<not> [False, False, False, False, False, False, False, True] ! 0 \<and>
   [False, False, False, False, False, False, False, True] ! (8 - 1)"
proof -
  have r: "random_spans_noise_mask sample_collator reversing 0 8
     = Inr ([False, False, False, False, False, False, False, True], 2)"
    by code_simp
  have l: "(2::nat) \<le> 8" by simp
  show ?thesis
    using permuting_reversing l r noise_mask_ends[OF permuting_reversing l r] by simp
qed

text \<open>
  Claim C3, as stated, fails: for the length 3, the density 0.5 and the mean span length 1
  there are 2 noise tokens in 2 spans but only 1 clean token, the two segmentations have
  different lengths and \<open>np.stack\<close> raises ValueError.
\<close>

theorem noise_mask_fails_counterexample:
  "(2::nat) \<le> 3 \<and> 0 < noise_density dense_collator \<and> noise_density dense_collator < 1 \<and>
   1 \<le> mean_noise_span_length dense_collator \<and>
   random_spans_noise_mask dense_collator reversing 0 3 = Inl ValueError"
  by code_simp

text \<open>
  Claim C3, amended. Let the length be at least 2, the density in (0, 1), the mean span
  length at least 1 (with a floating-point division that, like IEEE division, does not
  turn a count divided by a number of at least 1 into more than the count). Let \<open>nnt\<close> be
  the code's \<open>round(length * noise_density)\<close>, computed in floating point, clamped to
  \<open>[1, length - 1]\<close>, and \<open>spans\<close> the code's \<open>round(nnt / mean_noise_span_length)\<close>, computed in
  floating point, clamped to at least 1. If \<open>spans\<close> is at most the number \<open>length - nnt\<close> of
  clean tokens, then \<open>random_spans_noise_mask\<close> returns a mask of exactly \<open>length\<close> entries
  with \<open>nnt\<close> entries \<open>True\<close> in \<open>spans\<close> maximal runs.
\<close>

theorem noise_mask_counts:
  fixes len :: nat and c :: collator
  assumes "2 \<le> len" and "0 < noise_density c" and "noise_density c < 1"
    and "1 \<le> mean_noise_span_length c" and "permuting rng"
    and "quotient_bounded (arith c)"
    and nnt: "nnt = min (max (np_round (fl_mul (arith c) (of_nat len) (noise_density c))) 1)
                        (int len - 1)"
    and spans: "spans = max (np_round (fl_div (arith c) (of_int nnt)
                                         (mean_noise_span_length c))) 1"
    and room: "spans \<le> int len - nnt"
  shows "\<exists>m. random_spans_noise_mask c rng k len = Inr (m, k + 2) \<and> length m = len \<and>
           int (count_true m) = nnt \<and> int (true_runs m) = spans"
proof -
  define noise where "noise = random_segmentation (rng k) nnt spans"
  define nonnoise where "nonnoise = random_segmentation (rng (k + 1)) (int len - nnt) spans"
  define L where "L = concat (map2 (\<lambda>a b. [a, b]) nonnoise noise)"
  have range: "1 \<le> nnt" "1 \<le> int len - nnt"
    using assms(1) by (auto simp: nnt)
  have s1: "1 \<le> spans" by (simp add: spans)
  have "fl_div (arith c) (of_int nnt) (mean_noise_span_length c) \<le> of_int nnt"
    using assms(4,6) range(1) by (simp add: quotient_bounded_def)
  then have s2: "spans \<le> nnt" using np_round_le range(1) by (simp add: spans)
  have n1: "list_all (\<lambda>n. 1 \<le> n) noise" "sum_list noise = nat nnt"
    "length noise = nat spans"
    using random_segmentation_facts[OF assms(5) range(1), of k spans] s1 s2
    by (simp_all add: noise_def)
  have n2: "list_all (\<lambda>n. 1 \<le> n) nonnoise" "sum_list nonnoise = nat (int len - nnt)"
    "length nonnoise = nat spans"
    using random_segmentation_facts[OF assms(5) range(2), of "k + 1" spans] s1 room
    by (simp_all add: nonnoise_def)
  have pos: "list_all (\<lambda>p. 1 \<le> fst p \<and> 1 \<le> snd p) (zip nonnoise noise)"
    using n1(1,3) n2(1,3) by (auto simp: list_all_length)
  have "list_all (\<lambda>l. 1 \<le> l) L \<and> sum_list L = len"
    using flat_facts[OF pos] n1 n2 range by (simp add: L_def)
  then have "\<forall>s \<in> set (butlast (np_cumsum (map int L))). s < int len"
    using starts_below[of L 0] by (simp add: np_cumsum_def)
  then have inb: "\<not> (\<exists>s \<in> set (butlast (np_cumsum (map int L))). int len \<le> s)"
    by auto
  have mean: "mean_noise_span_length c \<noteq> 0" using assms(4) by auto
  note unf = random_spans_noise_mask_unfold[of c rng k len,
      folded nnt spans, folded noise_def nonnoise_def, folded L_def]
  obtain m where m: "random_spans_noise_mask c rng k len = Inr (m, k + 2)"
    unfolding unf using mean n1(3) n2(3) s1 inb by simp
  from noise_mask_blocks[OF assms(5,1) m, folded nnt, folded spans]
  obtain ps where pos': "list_all (\<lambda>p. 1 \<le> fst p \<and> 1 \<le> snd p) ps"
    and mb: "m = concat (map (\<lambda>p. replicate (fst p) False @ replicate (snd p) True) ps)"
    and cnt: "int (sum_list (map snd ps)) = nnt" and runs: "int (length ps) = spans"
    and total: "sum_list (map fst ps) + sum_list (map snd ps) = len"
    by blast
  have "length m = len" using mb total blocks_length[of ps] by simp
  moreover have "int (count_true m) = nnt" using mb cnt count_true_blocks[of ps] by simp
  moreover have "int (true_runs m) = spans" using mb runs true_runs_blocks[OF pos'] by simp
  ultimately show ?thesis using m by blast
qed

lemma quotient_bounded_exact: "quotient_bounded exact_ops"
proof -
  have "(of_int n :: rat) / m \<le> of_int n" if "0 \<le> n" "1 \<le> m" for n :: int and m :: rat
  proof -
    have "(0::rat) \<le> of_int n" using that(1) by simp
    then have "(of_int n :: rat) * 1 \<le> of_int n * m"
      using that(2) by (rule mult_left_mono[rotated])
    then show ?thesis using that(2) by (simp add: divide_le_eq)
  qed
  then show ?thesis by (simp add: quotient_bounded_def exact_ops_def)
qed

theorem noise_mask_counts_witness:
  "(2::nat) \<le> 20 \<and> 0 < noise_density sample_collator \<and> noise_density sample_collator < 1 \<and>
   1 \<le> mean_noise_span_length sample_collator \<and> permuting reversing \<and>
   quotient_bounded (arith sample_collator) \<and>
   (\<exists>m. random_spans_noise_mask sample_collator reversing 0 20 = Inr (m, 2) \<and>
        length m = 20 \<and> int (count_true m) = 2 \<and> int (true_runs m) = 1)"
proof -
  have a: "(2::nat) \<le> 20" by simp
  have b: "0 < noise_density sample_collator" "noise_density sample_collator < 1"
    "1 \<le> mean_noise_span_length sample_collator"
    by (simp_all add: sample_collator_def)
  have q: "quotient_bounded (arith sample_collator)"
    using quotient_bounded_exact by (simp add: sample_collator_def)
  have n: "(2::int) = min (max (np_round (fl_mul (arith sample_collator) (of_nat 20)
                                            (noise_density sample_collator))) 1)
                        (int 20 - 1)"
    by code_simp
  have s: "(1::int) = max (np_round (fl_div (arith sample_collator) (of_int 2)
                                       (mean_noise_span_length sample_collator))) 1"
    by code_simp
  have r: "(1::int) \<le> int 20 - 2" by simp
  show ?thesis
    using a b permuting_reversing q
      noise_mask_counts[OF a b permuting_reversing q n s r, of 0]
    by (simp add: numeral_2_eq_2)
qed

end
